theory Spec2Isabelle
  imports Complex_Main "HOL-Library.Sublist"
begin

section \<open>Event payloads\<close>

text \<open>
  An event of the upstream stream is a parsed JSON object. The values its properties can
  hold are modelled by \<open>json\<close>; \<open>JUndefined\<close> is what reading an absent property gives.
  A number is a real: every finite double is one, and the code only stores numbers,
  compares them with 4 and 6 and tests them for zero. A string is the list of its
  UTF-16 code units, each a natural number below 65536.
\<close>

datatype json =
    JUndefined
  | JNull
  | JBool bool
  | JNum real
  | JString "nat list"
  | JArr "json list"
  | JObj "(string \<times> json) list"

text \<open>
  The code units of a literal written in the source, and the string value it denotes.
\<close>

definition units :: "string \<Rightarrow> nat list" where
  "units s = map of_char s"

definition JStr :: "string \<Rightarrow> json" where
  "JStr s = JString (units s)"

text \<open>
  \<open>interface SSEEvent { type: string; [key: string]: unknown }\<close>: the type tag, and the
  other properties as an association list (the first binding of a key is the property).
\<close>

record SSEEvent =
  etype :: string
  props :: "(string \<times> json) list"

definition getField :: "SSEEvent \<Rightarrow> string \<Rightarrow> json" where
  "getField e k = (case map_of (props e) k of None \<Rightarrow> JUndefined | Some v \<Rightarrow> v)"

text \<open>
  Reading property \<open>k\<close> of a value other than an event: an object gives the property,
  any other value gives \<open>undefined\<close> (for the properties read here, and under optional
  chaining also for \<open>undefined\<close> and \<open>null\<close>).
\<close>

definition propOf :: "json \<Rightarrow> string \<Rightarrow> json" where
  "propOf v k =
     (case v of
        JObj kvs \<Rightarrow> (case map_of kvs k of None \<Rightarrow> JUndefined | Some x \<Rightarrow> x)
      | _ \<Rightarrow> JUndefined)"

text \<open>JavaScript truthiness, as \<open>if (v)\<close>, \<open>!v\<close> and \<open>v || d\<close> test it.\<close>

fun truthy :: "json \<Rightarrow> bool" where
  "truthy JUndefined = False"
| "truthy JNull = False"
| "truthy (JBool b) = b"
| "truthy (JNum n) = (n \<noteq> 0)"
| "truthy (JString s) = (s \<noteq> [])"
| "truthy (JArr xs) = True"
| "truthy (JObj kvs) = True"

text \<open>\<open>v || d\<close> and \<open>v ?? d\<close>.\<close>

definition orElse :: "json \<Rightarrow> json \<Rightarrow> json" where
  "orElse v d = (if truthy v then v else d)"

definition nullish :: "json \<Rightarrow> json \<Rightarrow> json" where
  "nullish v d = (if v = JUndefined \<or> v = JNull then d else v)"

section \<open>Run state\<close>

datatype status = Running | Completed | Failed | Canceled

text \<open>
  \<open>interface RunState\<close>. The fields \<open>agentsTotal\<close>, \<open>estimatedCost\<close> and \<open>topic\<close> receive
  event properties through unchecked type assertions (\<open>event.count as number\<close>), so
  they hold whatever value the event carried; \<open>agentsResponded\<close> starts at 0 and is only
  ever incremented.
\<close>

record RunState =
  events :: "SSEEvent list"
  lastPollIndex :: nat
  status :: status
  agentsTotal :: json
  agentsResponded :: nat
  estimatedCost :: json
  finalResult :: "SSEEvent option"
  topic :: json

definition INTERESTING_TYPES :: "string list" where
  "INTERESTING_TYPES =
     [''agent_response'', ''phase_start'', ''conversation_complete'',
      ''final'', ''error'', ''cost_estimation'', ''agents_created'',
      ''billing_complete'', ''roles_generated'']"

definition interesting :: "SSEEvent \<Rightarrow> bool" where
  "interesting e = (etype e \<in> set INTERESTING_TYPES)"

section \<open>The buffer and its waiters\<close>

text \<open>
  Each suspended \<open>waitForEvents\<close> call creates one closure \<open>settle\<close> with its own
  \<open>settled\<close> flag, its timer and the promise's \<open>resolve\<close>. A closure is identified by
  its index in \<open>closures\<close> (allocation order). \<open>timerPending\<close> says that the timer set
  by \<open>setTimeout\<close> has neither fired nor been cleared; \<open>resolveCalls\<close> counts the calls
  of \<open>resolve\<close>.
\<close>

record Waiter =
  wRunId :: string
  settled :: bool
  timerPending :: bool
  resolveCalls :: nat

record EventBuffer =
  runs :: "string \<rightharpoonup> RunState"
  waiters :: "string \<rightharpoonup> nat list"
  closures :: "Waiter list"

definition newBuffer :: EventBuffer where
  "newBuffer = \<lparr>runs = Map.empty, waiters = Map.empty, closures = []\<rparr>"

definition freshRun :: RunState where
  "freshRun =
     \<lparr>events = [], lastPollIndex = 0, status = Running, agentsTotal = JNum 0,
      agentsResponded = 0, estimatedCost = JNum 0, finalResult = None, topic = JStr []\<rparr>"

definition createRun :: "string \<Rightarrow> EventBuffer \<Rightarrow> EventBuffer" where
  "createRun runId b = b\<lparr>runs := (runs b)(runId \<mapsto> freshRun)\<rparr>"

text \<open>The \<open>switch (event.type)\<close> of \<open>addEvent\<close>, applied to the run after the push.\<close>

definition addEvent_switch :: "SSEEvent \<Rightarrow> RunState \<Rightarrow> RunState" where
  "addEvent_switch event run =
     (if etype event = ''connection'' then
        (if truthy (getField event ''topic'') then run\<lparr>topic := getField event ''topic''\<rparr> else run)
      else if etype event = ''agents_created'' then
        run\<lparr>agentsTotal := nullish (getField event ''count'') (JNum 0)\<rparr>
      else if etype event = ''agent_response'' then
        run\<lparr>agentsResponded := Suc (agentsResponded run)\<rparr>
      else if etype event = ''cost_estimation'' then
        run\<lparr>estimatedCost := nullish (getField event ''estimated_cost'') (JNum 0)\<rparr>
      else if etype event = ''final'' then
        (let run1 = run\<lparr>status := (if getField event ''status'' = JStr ''canceled''
                                      then Canceled else Completed),
                         finalResult := Some event\<rparr>
         in if \<not> truthy (topic run1) then
              (let conv = getField event ''conversation''
               in if truthy (propOf conv ''topic'') then run1\<lparr>topic := propOf conv ''topic''\<rparr>
                  else run1)
            else run1)
      else if etype event = ''error'' then run\<lparr>status := Failed\<rparr>
      else if etype event = ''cancelled'' then run\<lparr>status := Canceled\<rparr>
      else run)"

text \<open>
  \<open>removeWaiter\<close>: \<open>indexOf\<close> and \<open>splice(idx, 1)\<close> drop the first occurrence of the
  closure; an emptied list is deleted from the map.
\<close>

definition removeWaiter :: "string \<Rightarrow> nat \<Rightarrow> EventBuffer \<Rightarrow> EventBuffer" where
  "removeWaiter runId fn b =
     (case waiters b runId of
        None \<Rightarrow> b
      | Some list \<Rightarrow>
          (let list' = remove1 fn list
           in if list' = [] then b\<lparr>waiters := (waiters b)(runId := None)\<rparr>
              else b\<lparr>waiters := (waiters b)(runId \<mapsto> list')\<rparr>))"

text \<open>
  The closure \<open>settle\<close>: nothing when already settled; otherwise set the flag, clear the
  timer, deregister, and resolve the promise.
\<close>

definition settle :: "nat \<Rightarrow> EventBuffer \<Rightarrow> EventBuffer" where
  "settle fn b =
     (if fn < length (closures b) then
        (let c = closures b ! fn
         in if settled c then b
            else
              (let b1 = b\<lparr>closures := (closures b)[fn := c\<lparr>settled := True, timerPending := False\<rparr>]\<rparr>;
                   b2 = removeWaiter (wRunId c) fn b1
               in b2\<lparr>closures := (closures b2)
                        [fn := (closures b2 ! fn)\<lparr>resolveCalls := Suc (resolveCalls (closures b2 ! fn))\<rparr>]\<rparr>))
      else b)"

text \<open>\<open>notifyWaiters\<close>: copy the list, delete the registration, then call each closure.\<close>

definition notifyWaiters :: "string \<Rightarrow> EventBuffer \<Rightarrow> EventBuffer" where
  "notifyWaiters runId b =
     (case waiters b runId of
        None \<Rightarrow> b
      | Some list \<Rightarrow> fold settle list (b\<lparr>waiters := (waiters b)(runId := None)\<rparr>))"

definition addEvent :: "string \<Rightarrow> SSEEvent \<Rightarrow> EventBuffer \<Rightarrow> EventBuffer" where
  "addEvent runId event b =
     (case runs b runId of
        None \<Rightarrow> b
      | Some run \<Rightarrow>
          (let b' = b\<lparr>runs := (runs b)(runId \<mapsto>
                       addEvent_switch event (run\<lparr>events := events run @ [event]\<rparr>))\<rparr>
           in if interesting event \<or> etype event = ''cancelled''
              then notifyWaiters runId b' else b'))"

text \<open>
  \<open>waitForEvents\<close> either returns an already resolved promise, or allocates a closure,
  starts its timer and registers it. The timeout's length plays no part in the state.
\<close>

datatype wait_result = Resolved | Suspended nat

definition waitForEvents :: "string \<Rightarrow> EventBuffer \<Rightarrow> wait_result \<times> EventBuffer" where
  "waitForEvents runId b =
     (case runs b runId of
        None \<Rightarrow> (Resolved, b)
      | Some run \<Rightarrow>
          (let hasNew = list_ex interesting (drop (lastPollIndex run) (events run))
           in if hasNew \<or> status run \<noteq> Running then (Resolved, b)
              else
                (let fn = length (closures b);
                     b1 = b\<lparr>closures := closures b @
                            [\<lparr>wRunId = runId, settled = False, timerPending = True, resolveCalls = 0\<rparr>]\<rparr>;
                     list = (case waiters b1 runId of None \<Rightarrow> [] | Some l \<Rightarrow> l)
                 in (Suspended fn, b1\<lparr>waiters := (waiters b1)(runId \<mapsto> list @ [fn])\<rparr>))))"

text \<open>
  The runtime calls a timer's callback once, and only while the timer is pending.
\<close>

definition timerFires :: "nat \<Rightarrow> EventBuffer \<Rightarrow> EventBuffer" where
  "timerFires fn b =
     (if fn < length (closures b) \<and> timerPending (closures b ! fn)
      then settle fn (b\<lparr>closures := (closures b)[fn := (closures b ! fn)\<lparr>timerPending := False\<rparr>]\<rparr>)
      else b)"

record PollResult =
  pStatus :: status
  newEvents :: "SSEEvent list"
  pAgentsResponded :: nat
  pAgentsTotal :: json

definition getNewEvents :: "string \<Rightarrow> EventBuffer \<Rightarrow> PollResult option \<times> EventBuffer" where
  "getNewEvents runId b =
     (case runs b runId of
        None \<Rightarrow> (None, b)
      | Some run \<Rightarrow>
          (let new = filter interesting (drop (lastPollIndex run) (events run));
               run' = run\<lparr>lastPollIndex := length (events run)\<rparr>
           in (Some \<lparr>pStatus = status run', newEvents = new,
                     pAgentsResponded = agentsResponded run', pAgentsTotal = agentsTotal run'\<rparr>,
               b\<lparr>runs := (runs b)(runId \<mapsto> run')\<rparr>)))"

record RunInfo =
  iStatus :: status
  iAgentsTotal :: json
  iAgentsResponded :: nat
  iEstimatedCost :: json

definition getRunInfo :: "string \<Rightarrow> EventBuffer \<Rightarrow> RunInfo option" where
  "getRunInfo runId b =
     (case runs b runId of
        None \<Rightarrow> None
      | Some run \<Rightarrow>
          Some \<lparr>iStatus = status run, iAgentsTotal = agentsTotal run,
                iAgentsResponded = agentsResponded run, iEstimatedCost = estimatedCost run\<rparr>)"

definition setStatus :: "string \<Rightarrow> status \<Rightarrow> EventBuffer \<Rightarrow> EventBuffer" where
  "setStatus runId st b =
     (case runs b runId of
        None \<Rightarrow> b
      | Some run \<Rightarrow> b\<lparr>runs := (runs b)(runId \<mapsto> run\<lparr>status := st\<rparr>)\<rparr>)"

section \<open>Publish data\<close>

text \<open>
  \<open>getPublishData\<close> reads the terminal payload through unchecked type assertions, so
  the model follows what JavaScript does with any value. Reading a property of
  \<open>undefined\<close> or \<open>null\<close>, iterating a value that is not iterable, and calling
  \<open>replace\<close> on a value that is not a string throw a \<open>TypeError\<close>: the model returns
  \<open>Inl TypeError\<close>.
\<close>

datatype jsError = TypeError

text \<open>
  \<open>for (const x of v)\<close>: an array yields its elements, a string its code points (a lead
  surrogate followed by a trail surrogate is one element), anything else is not iterable.
\<close>

fun codePoints :: "nat list \<Rightarrow> nat list list" where
  "codePoints [] = []"
| "codePoints [c] = [[c]]"
| "codePoints (c # d # cs) =
     (if 0xD800 \<le> c \<and> c \<le> 0xDBFF \<and> 0xDC00 \<le> d \<and> d \<le> 0xDFFF
      then [c, d] # codePoints cs
      else [c] # codePoints (d # cs))"

fun iterate :: "json \<Rightarrow> jsError + json list" where
  "iterate (JArr xs) = Inr xs"
| "iterate (JString s) = Inr (map JString (codePoints s))"
| "iterate v = Inl TypeError"

text \<open>
  \<open>message.replace(/<think>[\s\S]*?<\/think>/g, '')\<close>: scanning from the left, a
  \<open><think>\<close> that is followed somewhere by \<open></think>\<close> is removed together with
  everything up to the first such \<open></think>\<close>, and the scan goes on behind it; any other
  character is kept. The pattern has no \<open>u\<close> flag, so it matches code unit by code unit.
\<close>

definition openTag :: "nat list" where
  "openTag = units ''<think>''"

definition closeTag :: "nat list" where
  "closeTag = units ''</think>''"

definition startsWith :: "nat list \<Rightarrow> nat list \<Rightarrow> bool" where
  "startsWith tag s = (take (length tag) s = tag)"

fun findClose :: "nat list \<Rightarrow> nat list option" where
  "findClose [] = None"
| "findClose (c # cs) =
     (if startsWith closeTag (c # cs) then Some (drop 8 (c # cs)) else findClose cs)"

function replaceThink :: "nat list \<Rightarrow> nat list" where
  "replaceThink [] = []"
| "replaceThink (c # cs) =
     (if startsWith openTag (c # cs) then
        (case findClose (drop 7 (c # cs)) of
           Some rest \<Rightarrow> replaceThink rest
         | None \<Rightarrow> c # replaceThink cs)
      else c # replaceThink cs)"
  by pat_completeness auto
termination
proof (relation "measure length")
  fix c cs rest
  assume found: "findClose (drop 7 (c # cs)) = Some rest"
  have "findClose s = Some r \<Longrightarrow> length r < length s" for s r
    by (induction s) (auto split: if_splits)
  from this [OF found] show "(rest, c # cs) \<in> measure length" by simp
qed simp_all

text \<open>
  \<open>trim()\<close> removes white space and line terminators at both ends: tab, line feed,
  vertical tab, form feed, carriage return, the space separators (U+0020, U+00A0,
  U+1680, U+2000 to U+200A, U+202F, U+205F, U+3000), the line and paragraph separators
  U+2028 and U+2029, and the byte order mark U+FEFF.
\<close>

definition isSpace :: "nat \<Rightarrow> bool" where
  "isSpace c =
     (c \<in> {0x09, 0x0A, 0x0B, 0x0C, 0x0D, 0x20, 0xA0, 0x1680, 0x2028, 0x2029, 0x202F, 0x205F,
            0x3000, 0xFEFF} \<or>
      (0x2000 \<le> c \<and> c \<le> 0x200A))"

definition trim :: "nat list \<Rightarrow> nat list" where
  "trim s = rev (dropWhile isSpace (rev (dropWhile isSpace s)))"

definition stripThinkTags :: "nat list \<Rightarrow> nat list" where
  "stripThinkTags message = trim (replaceThink message)"


text \<open>
  \<open>inferTopology(agentCount)\<close> compares a number; \<open>None\<close> stands for \<open>NaN\<close>, for which
  both comparisons are false. The argument is \<open>run.agentsTotal\<close>, which holds a
  number when the \<open>agents_created\<close> event carried one. For any other stored value the
  comparison first converts it with the language's \<open>ToNumber\<close>, which is a parameter
  of the model.
\<close>

definition lessEq :: "real option \<Rightarrow> real \<Rightarrow> bool" where
  "lessEq a n = (case a of None \<Rightarrow> False | Some x \<Rightarrow> x \<le> n)"

definition inferTopology :: "real option \<Rightarrow> string" where
  "inferTopology agentCount =
     (if lessEq agentCount 4 then ''small''
      else if lessEq agentCount 6 then ''medium''
      else ''large'')"

definition numberOf :: "(json \<Rightarrow> real option) \<Rightarrow> json \<Rightarrow> real option" where
  "numberOf toNumber v = (case v of JNum a \<Rightarrow> Some a | _ \<Rightarrow> toNumber v)"

record Response =
  rRound :: json
  rAgent :: json
  rRole :: json
  rMessage :: "nat list"
  rModel :: json
  rProvider :: json

record CommonsPublishData =
  pdRunId :: json
  pdTopic :: json
  topologyType :: json
  numRounds :: json
  modelGroup :: json
  agentCount :: json
  totalTokens :: json
  durationSeconds :: json
  responses :: "Response list"

definition responseOf :: "json \<Rightarrow> json \<Rightarrow> jsError + Response" where
  "responseOf roundNum r =
     (if r = JUndefined \<or> r = JNull then Inl TypeError
      else
        (case orElse (propOf r ''message'') (JStr []) of
           JString message \<Rightarrow>
             Inr \<lparr>rRound = roundNum,
                  rAgent = orElse (propOf r ''agent_name'') (JStr []),
                  rRole = orElse (propOf r ''agent_role'') (JStr []),
                  rMessage = stripThinkTags message,
                  rModel = orElse (propOf r ''model'') JUndefined,
                  rProvider = orElse (propOf r ''provider'') JUndefined\<rparr>
         | _ \<Rightarrow> Inl TypeError))"

fun collect :: "('a \<Rightarrow> jsError + 'b list) \<Rightarrow> 'a list \<Rightarrow> jsError + 'b list" where
  "collect f [] = Inr []"
| "collect f (x # xs) =
     (case f x of
        Inl e \<Rightarrow> Inl e
      | Inr ys \<Rightarrow> (case collect f xs of Inl e \<Rightarrow> Inl e | Inr zs \<Rightarrow> Inr (ys @ zs)))"

definition nodeResponses :: "json \<Rightarrow> jsError + Response list" where
  "nodeResponses node =
     (if node = JUndefined \<or> node = JNull then Inl TypeError
      else
        (let roundNum = orElse (propOf node ''round'') (JNum 1)
         in case iterate (orElse (propOf node ''responses'') (JArr [])) of
              Inl e \<Rightarrow> Inl e
            | Inr rs \<Rightarrow>
                collect (\<lambda>r. case responseOf roundNum r of
                                 Inl e \<Rightarrow> Inl e | Inr x \<Rightarrow> Inr [x]) rs))"

definition roundResponses :: "json \<Rightarrow> jsError + Response list" where
  "roundResponses rnd =
     (if rnd = JUndefined \<or> rnd = JNull then Inl TypeError
      else
        (case iterate (orElse (propOf rnd ''node_results'') (JArr [])) of
           Inl e \<Rightarrow> Inl e
         | Inr nodes \<Rightarrow> collect nodeResponses nodes))"

definition getPublishData ::
  "(json \<Rightarrow> real option) \<Rightarrow> string \<Rightarrow> EventBuffer \<Rightarrow> jsError + CommonsPublishData option" where
  "getPublishData toNumber runId b =
     (case runs b runId of
        None \<Rightarrow> Inr None
      | Some run \<Rightarrow>
          if status run \<noteq> Completed then Inr None
          else
            (case finalResult run of
               None \<Rightarrow> Inr None
             | Some final \<Rightarrow>
                 (let conv = getField final ''conversation''
                  in if \<not> truthy conv then Inr None
                     else
                       (let apiRunId =
                              orElse (case find (\<lambda>e. etype e = ''connection'') (events run) of
                                        None \<Rightarrow> JUndefined
                                      | Some connectionEvent \<Rightarrow> getField connectionEvent ''run_id'')
                                     (JStr runId);
                            topology =
                              (if truthy (propOf conv ''polyhedron_type'')
                               then propOf conv ''polyhedron_type''
                               else if truthy (propOf conv ''topology_type'')
                               then propOf conv ''topology_type''
                               else if truthy (propOf conv ''topology'')
                               then propOf conv ''topology''
                               else JStr (inferTopology (numberOf toNumber (agentsTotal run))))
                        in case iterate (orElse (propOf conv ''round_results'') (JArr [])) of
                             Inl e \<Rightarrow> Inl e
                           | Inr roundResults \<Rightarrow>
                               (case collect roundResponses roundResults of
                                  Inl e \<Rightarrow> Inl e
                                | Inr rs \<Rightarrow>
                                    Inr (Some
                                      \<lparr>pdRunId = apiRunId,
                                       pdTopic = orElse (propOf conv ''topic'') (JStr []),
                                       topologyType = topology,
                                       numRounds = orElse (propOf conv ''total_rounds'') (JNum 1),
                                       modelGroup = orElse (propOf conv ''model_group'') (JStr ''mixed''),
                                       agentCount = agentsTotal run,
                                       totalTokens = orElse (propOf conv ''total_tokens'') JUndefined,
                                       durationSeconds =
                                         orElse (propOf conv ''duration_seconds'')
                                           (orElse (propOf conv ''duration'') JUndefined),
                                       responses = rs\<rparr>))))))"

subsection \<open>The nested round results, in the spec's words\<close>

text \<open>
  The round results of a conversation are nested as expected when \<open>round_results\<close>,
  each round's \<open>node_results\<close> and each node's \<open>responses\<close> are absent or arrays of
  objects, and each response's \<open>message\<close> is absent or a string. Their flattening lists
  the responses round by round, node by node, in the payload's order, each with the
  round of its node and its message stripped.
\<close>

definition elements :: "json \<Rightarrow> json list" where
  "elements v = (case v of JArr xs \<Rightarrow> xs | _ \<Rightarrow> [])"

definition isObject :: "json \<Rightarrow> bool" where
  "isObject v = (case v of JObj kvs \<Rightarrow> True | _ \<Rightarrow> False)"

definition objectArray :: "json \<Rightarrow> bool" where
  "objectArray v = (\<not> truthy v \<or> (case v of JArr xs \<Rightarrow> list_all isObject xs | _ \<Rightarrow> False))"

definition textOrAbsent :: "json \<Rightarrow> bool" where
  "textOrAbsent v = (\<not> truthy v \<or> (case v of JString s \<Rightarrow> True | _ \<Rightarrow> False))"

definition nestedAsExpected :: "json \<Rightarrow> bool" where
  "nestedAsExpected conv =
     (objectArray (propOf conv ''round_results'') \<and>
      list_all (\<lambda>rnd.
          objectArray (propOf rnd ''node_results'') \<and>
          list_all (\<lambda>node.
              objectArray (propOf node ''responses'') \<and>
              list_all (\<lambda>r. textOrAbsent (propOf r ''message''))
                (elements (propOf node ''responses'')))
            (elements (propOf rnd ''node_results'')))
        (elements (propOf conv ''round_results'')))"

definition entry :: "json \<Rightarrow> json \<Rightarrow> Response" where
  "entry node r =
     \<lparr>rRound = (if truthy (propOf node ''round'') then propOf node ''round'' else JNum 1),
      rAgent = (if truthy (propOf r ''agent_name'') then propOf r ''agent_name'' else JStr []),
      rRole = (if truthy (propOf r ''agent_role'') then propOf r ''agent_role'' else JStr []),
      rMessage = stripThinkTags (case propOf r ''message'' of JString s \<Rightarrow> s | _ \<Rightarrow> []),
      rModel = (if truthy (propOf r ''model'') then propOf r ''model'' else JUndefined),
      rProvider = (if truthy (propOf r ''provider'') then propOf r ''provider'' else JUndefined)\<rparr>"

definition flattened :: "json \<Rightarrow> Response list" where
  "flattened conv =
     concat (map (\<lambda>rnd.
        concat (map (\<lambda>node. map (entry node) (elements (propOf node ''responses'')))
          (elements (propOf rnd ''node_results''))))
       (elements (propOf conv ''round_results'')))"


text \<open>An occurrence of a tag in a string.\<close>

fun occursIn :: "nat list \<Rightarrow> nat list \<Rightarrow> bool" where
  "occursIn tag [] = (tag = [])"
| "occursIn tag (c # cs) = (startsWith tag (c # cs) \<or> occursIn tag cs)"

section \<open>Operation sequences\<close>

text \<open>
  The buffer is driven by single-threaded callbacks: stream messages (\<open>createRun\<close>,
  \<open>addEvent\<close>), poll requests (\<open>waitForEvents\<close>, then \<open>getNewEvents\<close>), status overrides
  and expiring timers. A history of the buffer is a list of such operations.
\<close>

datatype operation =
    CreateRun string
  | AddEvent string SSEEvent
  | WaitForEvents string
  | TimerFires nat
  | GetNewEvents string
  | SetStatus string status

fun step :: "operation \<Rightarrow> EventBuffer \<Rightarrow> EventBuffer" where
  "step (CreateRun r) b = createRun r b"
| "step (AddEvent r e) b = addEvent r e b"
| "step (WaitForEvents r) b = snd (waitForEvents r b)"
| "step (TimerFires fn) b = timerFires fn b"
| "step (GetNewEvents r) b = snd (getNewEvents r b)"
| "step (SetStatus r st) b = setStatus r st b"

definition exec :: "operation list \<Rightarrow> EventBuffer \<Rightarrow> EventBuffer" where
  "exec ops b = fold step ops b"

text \<open>
  The data model's invariant on a run: the read cursor never exceeds the log length.
\<close>

definition cursorOk :: "string \<Rightarrow> EventBuffer \<Rightarrow> bool" where
  "cursorOk r b =
     (case runs b r of None \<Rightarrow> True | Some run \<Rightarrow> lastPollIndex run \<le> length (events run))"

text \<open>
  Bookkeeping over a history, for run \<open>r\<close>: the events not yet polled (\<open>pending\<close>), the
  events each operation really pushes onto the log (\<open>pushed\<close>: an \<open>addEvent\<close> for an
  unknown run pushes nothing), and the events each \<open>getNewEvents\<close> call returns, call
  after call (\<open>delivered\<close>).
\<close>

definition pending :: "string \<Rightarrow> EventBuffer \<Rightarrow> SSEEvent list" where
  "pending r b =
     (case runs b r of None \<Rightarrow> [] | Some run \<Rightarrow> drop (lastPollIndex run) (events run))"

definition pushedBy :: "string \<Rightarrow> operation \<Rightarrow> EventBuffer \<Rightarrow> SSEEvent list" where
  "pushedBy r op b =
     (case op of
        AddEvent r' e \<Rightarrow> if r' = r \<and> runs b r \<noteq> None then [e] else []
      | _ \<Rightarrow> [])"

fun pushed :: "string \<Rightarrow> operation list \<Rightarrow> EventBuffer \<Rightarrow> SSEEvent list" where
  "pushed r [] b = []"
| "pushed r (op # ops) b = pushedBy r op b @ pushed r ops (step op b)"

definition deliveredBy :: "string \<Rightarrow> operation \<Rightarrow> EventBuffer \<Rightarrow> SSEEvent list" where
  "deliveredBy r op b =
     (case op of
        GetNewEvents r' \<Rightarrow>
          if r' = r then (case fst (getNewEvents r b) of None \<Rightarrow> [] | Some p \<Rightarrow> newEvents p)
          else []
      | _ \<Rightarrow> [])"

fun delivered :: "string \<Rightarrow> operation list \<Rightarrow> EventBuffer \<Rightarrow> SSEEvent list" where
  "delivered r [] b = []"
| "delivered r (op # ops) b = deliveredBy r op b @ delivered r ops (step op b)"

text \<open>
  The invariant of the waiter bookkeeping. A registration list is never empty, has no
  duplicate, and holds only unsettled closures created for that run id. A settled
  closure has called \<open>resolve\<close> exactly once and has no pending timer. An unsettled
  closure has never called \<open>resolve\<close>, its timer is pending and it is registered under
  its run id; the exception is a closure in \<open>P\<close>: one that \<open>notifyWaiters\<close> has copied
  out of a deleted list, or whose timer has just fired, and that is about to be called.
  Between operations \<open>P\<close> is empty.
\<close>

definition waitersInv :: "nat set \<Rightarrow> EventBuffer \<Rightarrow> bool" where
  "waitersInv P b \<longleftrightarrow>
     (\<forall>r l. waiters b r = Some l \<longrightarrow>
        l \<noteq> [] \<and> distinct l \<and>
        (\<forall>fn \<in> set l. fn < length (closures b) \<and> wRunId (closures b ! fn) = r \<and>
                       \<not> settled (closures b ! fn))) \<and>
     (\<forall>fn < length (closures b).
        if settled (closures b ! fn)
        then resolveCalls (closures b ! fn) = 1 \<and> \<not> timerPending (closures b ! fn)
        else resolveCalls (closures b ! fn) = 0 \<and>
             (fn \<in> P \<or>
              (timerPending (closures b ! fn) \<and>
               (\<exists>l. waiters b (wRunId (closures b ! fn)) = Some l \<and> fn \<in> set l))))"

definition waitersOk :: "EventBuffer \<Rightarrow> bool" where
  "waitersOk b = waitersInv {} b"

text \<open>What the first call of a closure does to it.\<close>

definition wake :: "Waiter \<Rightarrow> Waiter" where
  "wake c = c\<lparr>settled := True, timerPending := False, resolveCalls := Suc (resolveCalls c)\<rparr>"

section \<open>String values\<close>

lemma units_eq_iff [simp]: "units s = units t \<longleftrightarrow> s = t"
  by (simp add: units_def inj_map_eq_map [OF inj_of_char])

lemma units_Nil [simp]: "units [] = []"
  by (simp add: units_def)

lemma units_eq_Nil [simp]: "units s = [] \<longleftrightarrow> s = []"
  by (simp add: units_def)

lemma JStr_eq_iff [simp]: "JStr s = JStr t \<longleftrightarrow> s = t"
  by (simp add: JStr_def)

lemma JStr_distinct [simp]:
  "JStr s \<noteq> JUndefined" "JUndefined \<noteq> JStr s"
  "JStr s \<noteq> JNull" "JNull \<noteq> JStr s"
  "JStr s \<noteq> JBool x" "JBool x \<noteq> JStr s"
  "JStr s \<noteq> JNum n" "JNum n \<noteq> JStr s"
  "JStr s \<noteq> JArr xs" "JArr xs \<noteq> JStr s"
  "JStr s \<noteq> JObj kvs" "JObj kvs \<noteq> JStr s"
  by (simp_all add: JStr_def)

lemma truthy_JStr [simp]: "truthy (JStr s) \<longleftrightarrow> s \<noteq> []"
  by (simp add: JStr_def)

lemma case_JStr [simp]:
  "(case JStr s of JUndefined \<Rightarrow> a | JNull \<Rightarrow> b | JBool x \<Rightarrow> c x | JNum n \<Rightarrow> d n
      | JString u \<Rightarrow> f u | JArr xs \<Rightarrow> g xs | JObj kvs \<Rightarrow> h kvs) = f (units s)"
  by (simp add: JStr_def)

section \<open>What each operation does to the run registry\<close>

lemma runs_removeWaiter: "runs (removeWaiter r fn b) = runs b"
  by (simp add: removeWaiter_def Let_def split: option.splits)

lemma runs_settle: "runs (settle fn b) = runs b"
  by (simp add: settle_def Let_def runs_removeWaiter)

lemma runs_fold_settle: "runs (fold settle l b) = runs b"
  by (induction l arbitrary: b) (simp_all add: runs_settle)

lemma runs_notifyWaiters: "runs (notifyWaiters r b) = runs b"
  by (simp add: notifyWaiters_def runs_fold_settle split: option.splits)

lemma runs_createRun: "runs (createRun r b) = (runs b)(r \<mapsto> freshRun)"
  by (simp add: createRun_def)

lemma runs_addEvent:
  "runs (addEvent r e b) =
     (case runs b r of
        None \<Rightarrow> runs b
      | Some run \<Rightarrow> (runs b)(r \<mapsto> addEvent_switch e (run\<lparr>events := events run @ [e]\<rparr>)))"
  by (simp add: addEvent_def Let_def runs_notifyWaiters split: option.splits)

lemma runs_waitForEvents: "runs (snd (waitForEvents r b)) = runs b"
  by (simp add: waitForEvents_def Let_def split: option.splits)

lemma runs_timerFires: "runs (timerFires fn b) = runs b"
  by (simp add: timerFires_def runs_settle)

lemma runs_getNewEvents:
  "runs (snd (getNewEvents r b)) =
     (case runs b r of
        None \<Rightarrow> runs b
      | Some run \<Rightarrow> (runs b)(r \<mapsto> run\<lparr>lastPollIndex := length (events run)\<rparr>))"
  by (simp add: getNewEvents_def Let_def split: option.splits)

lemma runs_setStatus:
  "runs (setStatus r st b) =
     (case runs b r of None \<Rightarrow> runs b | Some run \<Rightarrow> (runs b)(r \<mapsto> run\<lparr>status := st\<rparr>))"
  by (simp add: setStatus_def split: option.splits)

lemmas runs_simps = runs_createRun runs_addEvent runs_waitForEvents runs_timerFires
  runs_getNewEvents runs_setStatus

lemma interesting_iff:
  "interesting e \<longleftrightarrow>
     etype e \<in> {''agent_response'', ''phase_start'', ''conversation_complete'', ''final'',
                ''error'', ''cost_estimation'', ''agents_created'', ''billing_complete'',
                ''roles_generated''}"
  by (simp add: interesting_def INTERESTING_TYPES_def)

section \<open>Per-run isolation\<close>

text \<open>
  C10. Every operation that takes a run id (\<open>createRun\<close>, \<open>addEvent\<close>, \<open>getNewEvents\<close>,
  \<open>setStatus\<close>, \<open>waitForEvents\<close>) leaves the whole state of every run with another id
  (log, cursor, status, counters, topic, final result) as it was.
\<close>

theorem C10_other_runs_unchanged:
  "r' \<noteq> r \<Longrightarrow>
     runs (createRun r b) r' = runs b r' \<and>
     runs (addEvent r e b) r' = runs b r' \<and>
     runs (snd (getNewEvents r b)) r' = runs b r' \<and>
     runs (setStatus r st b) r' = runs b r' \<and>
     runs (snd (waitForEvents r b)) r' = runs b r'"
  by (simp add: runs_simps split: option.splits)

theorem C10_other_runs_unchanged_witness:
  "runs (createRun ''R1'' (createRun ''R1'' (createRun ''R2'' newBuffer))) ''R2'' = Some freshRun \<and>
   runs (addEvent ''R1'' \<lparr>etype = ''error'', props = []\<rparr>
           (createRun ''R1'' (createRun ''R2'' newBuffer))) ''R2'' = Some freshRun \<and>
   runs (snd (getNewEvents ''R1'' (createRun ''R1'' (createRun ''R2'' newBuffer)))) ''R2''
     = Some freshRun \<and>
   runs (setStatus ''R1'' Canceled (createRun ''R1'' (createRun ''R2'' newBuffer))) ''R2''
     = Some freshRun \<and>
   runs (snd (waitForEvents ''R1'' (createRun ''R1'' (createRun ''R2'' newBuffer)))) ''R2''
     = Some freshRun"
proof -
  have d: "''R2'' \<noteq> ''R1''" by simp
  have "runs (createRun ''R1'' (createRun ''R2'' newBuffer)) ''R2'' = Some freshRun"
    by (simp add: runs_createRun)
  with C10_other_runs_unchanged [OF d, of "createRun ''R1'' (createRun ''R2'' newBuffer)"]
  show ?thesis by simp
qed

section \<open>Immediate return of waitForEvents\<close>

lemma list_ex_drop_nth:
  "list_ex P (drop c xs) = (\<exists>i. c \<le> i \<and> i < length xs \<and> P (xs ! i))"
proof
  assume "list_ex P (drop c xs)"
  then obtain j where j: "j < length (drop c xs)" "P (drop c xs ! j)"
    by (auto simp: list_ex_iff in_set_conv_nth)
  then have "c \<le> c + j \<and> c + j < length xs \<and> P (xs ! (c + j))" by simp
  then show "\<exists>i. c \<le> i \<and> i < length xs \<and> P (xs ! i)" by blast
next
  assume "\<exists>i. c \<le> i \<and> i < length xs \<and> P (xs ! i)"
  then obtain i where i: "c \<le> i" "i < length xs" "P (xs ! i)" by blast
  then have "i - c < length (drop c xs)" "drop c xs ! (i - c) = xs ! i" by simp_all
  with i(3) show "list_ex P (drop c xs)"
    by (metis list_ex_iff nth_mem)
qed

lemma waitForEvents_cases:
  "waitForEvents r b =
     (if runs b r = None \<or>
         (\<exists>run. runs b r = Some run \<and>
            (status run \<noteq> Running \<or>
             (\<exists>i. lastPollIndex run \<le> i \<and> i < length (events run) \<and>
                  interesting (events run ! i))))
      then (Resolved, b)
      else (Suspended (length (closures b)),
            b\<lparr>closures := closures b @
                 [\<lparr>wRunId = r, settled = False, timerPending = True, resolveCalls = 0\<rparr>],
              waiters := (waiters b)(r \<mapsto>
                 (case waiters b r of None \<Rightarrow> [] | Some l \<Rightarrow> l) @ [length (closures b)])\<rparr>))"
  by (cases "runs b r") (auto simp add: waitForEvents_def Let_def list_ex_drop_nth)

text \<open>
  C4. \<open>waitForEvents\<close> returns an already resolved promise, leaving the buffer as it was
  (no waiter registered, no timer started), exactly when the run id is unknown, or the
  run's status is not \<open>running\<close>, or the log holds an interesting event at an index at
  or past the read cursor. In every other case it allocates one closure and appends it
  to the run's registration list.
\<close>

theorem C4_waitForEvents_immediate_iff:
  "(fst (waitForEvents r b) = Resolved \<longleftrightarrow>
      (runs b r = None \<or>
       (\<exists>run. runs b r = Some run \<and>
          (status run \<noteq> Running \<or>
           (\<exists>i. lastPollIndex run \<le> i \<and> i < length (events run) \<and>
                interesting (events run ! i)))))) \<and>
   (fst (waitForEvents r b) = Resolved \<longrightarrow> snd (waitForEvents r b) = b) \<and>
   (fst (waitForEvents r b) \<noteq> Resolved \<longrightarrow>
      fst (waitForEvents r b) = Suspended (length (closures b)) \<and>
      waiters (snd (waitForEvents r b)) r =
        Some ((case waiters b r of None \<Rightarrow> [] | Some l \<Rightarrow> l) @ [length (closures b)]))"
  unfolding waitForEvents_cases by simp

theorem C4_waitForEvents_immediate_iff_witness:
  "fst (waitForEvents ''missing-run'' newBuffer) = Resolved \<and>
   snd (waitForEvents ''missing-run'' newBuffer) = newBuffer \<and>
   fst (waitForEvents ''R2'' (createRun ''R2'' newBuffer)) = Suspended 0 \<and>
   waiters (snd (waitForEvents ''R2'' (createRun ''R2'' newBuffer))) ''R2'' = Some [0]"
proof -
  have 1: "runs newBuffer ''missing-run'' = None"
    by (simp add: newBuffer_def)
  have 2: "runs (createRun ''R2'' newBuffer) ''R2'' = Some freshRun"
    by (simp add: runs_createRun)
  have 3: "status freshRun = Running" "events freshRun = []"
    by (simp_all add: freshRun_def)
  have 4: "closures (createRun ''R2'' newBuffer) = []" "waiters (createRun ''R2'' newBuffer) ''R2'' = None"
    by (simp_all add: createRun_def newBuffer_def)
  from C4_waitForEvents_immediate_iff [of "''missing-run''" newBuffer] 1
  have a: "fst (waitForEvents ''missing-run'' newBuffer) = Resolved \<and>
           snd (waitForEvents ''missing-run'' newBuffer) = newBuffer"
    by simp
  from C4_waitForEvents_immediate_iff [of "''R2''" "createRun ''R2'' newBuffer"] 2 3 4
  have b: "fst (waitForEvents ''R2'' (createRun ''R2'' newBuffer)) = Suspended 0 \<and>
           waiters (snd (waitForEvents ''R2'' (createRun ''R2'' newBuffer))) ''R2'' = Some [0]"
    by simp
  from a b show ?thesis by simp
qed

section \<open>Creating a run\<close>

text \<open>
  C2, as the code has it. \<open>createRun\<close> installs a fresh state for the id whether or not
  the id is already known, so two calls in a row leave the buffer as one call does; the
  waiters are not touched. A run that already holds events loses them (next theorem).
\<close>

theorem C2_createRun_resets:
  "createRun r (createRun r b) = createRun r b \<and>
   runs (createRun r b) r = Some freshRun \<and>
   waiters (createRun r b) = waiters b \<and>
   closures (createRun r b) = closures b"
  by (simp add: createRun_def)

text \<open>
  A second \<open>createRun\<close> on a run that has received an event is not a no-op: the log
  \<open>[e]\<close> becomes empty and the responded counter returns to 0.
\<close>

theorem C2_createRun_existing_counterexample:
  "map_option events (runs (addEvent ''R1'' \<lparr>etype = ''agent_response'', props = []\<rparr>
        (createRun ''R1'' newBuffer)) ''R1'')
     = Some [\<lparr>etype = ''agent_response'', props = []\<rparr>] \<and>
   map_option events (runs (createRun ''R1''
        (addEvent ''R1'' \<lparr>etype = ''agent_response'', props = []\<rparr>
          (createRun ''R1'' newBuffer))) ''R1'')
     = Some [] \<and>
   map_option agentsResponded (runs (addEvent ''R1'' \<lparr>etype = ''agent_response'', props = []\<rparr>
        (createRun ''R1'' newBuffer)) ''R1'')
     = Some 1 \<and>
   map_option agentsResponded (runs (createRun ''R1''
        (addEvent ''R1'' \<lparr>etype = ''agent_response'', props = []\<rparr>
          (createRun ''R1'' newBuffer))) ''R1'')
     = Some 0"
  by (simp add: runs_simps newBuffer_def freshRun_def addEvent_switch_def)

section \<open>The polling scenario\<close>

text \<open>
  C5, as the code has it. After \<open>createRun(R1)\<close>, a \<open>connection\<close> event and an
  \<open>agents_created\<close> event with count 4, \<open>getRunInfo(R1).agentsTotal\<close> is 4. After four
  \<open>agent_response\<close> events, \<open>getNewEvents(R1)\<close> reports \<open>agentsResponded = 4\<close>, and its
  \<open>newEvents\<close> are exactly five entries in insertion order: the \<open>agents_created\<close> event
  and the four responses. The \<open>connection\<close> event is in the log and is not delivered.
\<close>

theorem C5_scenario:
  "map_option iAgentsTotal (getRunInfo ''R1''
     (addEvent ''R1'' \<lparr>etype = ''agents_created'', props = [(''count'', JNum 4)]\<rparr>
       (addEvent ''R1'' \<lparr>etype = ''connection'',
                         props = [(''run_id'', JStr ''R1''), (''topic'', JStr ''X'')]\<rparr>
         (createRun ''R1'' newBuffer)))) = Some (JNum 4) \<and>
   fst (getNewEvents ''R1''
     (fold (\<lambda>a. addEvent ''R1'' \<lparr>etype = ''agent_response'', props = [(''agent'', JStr a)]\<rparr>)
        [''A'', ''B'', ''C'', ''D'']
       (addEvent ''R1'' \<lparr>etype = ''agents_created'', props = [(''count'', JNum 4)]\<rparr>
         (addEvent ''R1'' \<lparr>etype = ''connection'',
                           props = [(''run_id'', JStr ''R1''), (''topic'', JStr ''X'')]\<rparr>
           (createRun ''R1'' newBuffer)))))
   = Some \<lparr>pStatus = Running,
            newEvents =
              [\<lparr>etype = ''agents_created'', props = [(''count'', JNum 4)]\<rparr>,
               \<lparr>etype = ''agent_response'', props = [(''agent'', JStr ''A'')]\<rparr>,
               \<lparr>etype = ''agent_response'', props = [(''agent'', JStr ''B'')]\<rparr>,
               \<lparr>etype = ''agent_response'', props = [(''agent'', JStr ''C'')]\<rparr>,
               \<lparr>etype = ''agent_response'', props = [(''agent'', JStr ''D'')]\<rparr>],
            pAgentsResponded = 4, pAgentsTotal = JNum 4\<rparr>"
  by (simp add: getRunInfo_def getNewEvents_def runs_simps newBuffer_def freshRun_def
      addEvent_switch_def getField_def nullish_def interesting_iff)

text \<open>
  The \<open>connection\<close> event does not count as interesting: its type is not in
  \<open>INTERESTING_TYPES\<close>, and it is absent from the five entries delivered.
\<close>

theorem C5_connection_counterexample:
  "\<not> interesting \<lparr>etype = ''connection'',
                   props = [(''run_id'', JStr ''R1''), (''topic'', JStr ''X'')]\<rparr> \<and>
   \<lparr>etype = ''connection'', props = [(''run_id'', JStr ''R1''), (''topic'', JStr ''X'')]\<rparr>
     \<notin> set (case fst (getNewEvents ''R1''
         (fold (\<lambda>a. addEvent ''R1'' \<lparr>etype = ''agent_response'', props = [(''agent'', JStr a)]\<rparr>)
            [''A'', ''B'', ''C'', ''D'']
           (addEvent ''R1'' \<lparr>etype = ''agents_created'', props = [(''count'', JNum 4)]\<rparr>
             (addEvent ''R1'' \<lparr>etype = ''connection'',
                               props = [(''run_id'', JStr ''R1''), (''topic'', JStr ''X'')]\<rparr>
               (createRun ''R1'' newBuffer))))) of
          None \<Rightarrow> [] | Some p \<Rightarrow> newEvents p)"
  by (simp add: getNewEvents_def runs_simps newBuffer_def freshRun_def
      addEvent_switch_def getField_def nullish_def interesting_iff)

section \<open>The effect of an operation on one run\<close>

lemma switch_events [simp]: "events (addEvent_switch e run) = events run"
  by (simp add: addEvent_switch_def Let_def split: json.splits option.splits)

lemma switch_lastPollIndex [simp]: "lastPollIndex (addEvent_switch e run) = lastPollIndex run"
  by (simp add: addEvent_switch_def Let_def split: json.splits option.splits)

lemma switch_status:
  "status (addEvent_switch e run) =
     (if etype e = ''final'' then
        (if getField e ''status'' = JStr ''canceled'' then Canceled else Completed)
      else if etype e = ''error'' then Failed
      else if etype e = ''cancelled'' then Canceled
      else status run)"
  by (simp add: addEvent_switch_def Let_def split: json.splits option.splits)

lemma switch_agentsResponded:
  "agentsResponded (addEvent_switch e run) =
     (if etype e = ''agent_response'' then Suc (agentsResponded run) else agentsResponded run)"
  by (simp add: addEvent_switch_def Let_def split: json.splits option.splits)

lemma switch_agentsTotal:
  "agentsTotal (addEvent_switch e run) =
     (if etype e = ''agents_created'' then nullish (getField e ''count'') (JNum 0) else agentsTotal run)"
  by (simp add: addEvent_switch_def Let_def split: json.splits option.splits)

lemma switch_estimatedCost:
  "estimatedCost (addEvent_switch e run) =
     (if etype e = ''cost_estimation'' then nullish (getField e ''estimated_cost'') (JNum 0)
      else estimatedCost run)"
  by (simp add: addEvent_switch_def Let_def split: json.splits option.splits)


lemma addEvent_run:
  "runs b r = Some run \<Longrightarrow>
   runs (addEvent r e b) r = Some (addEvent_switch e (run\<lparr>events := events run @ [e]\<rparr>))"
  by (simp add: runs_addEvent)

lemma step_run:
  assumes "runs b r = Some run" "op \<noteq> CreateRun r"
  shows "\<exists>run'. runs (step op b) r = Some run' \<and>
           events run' = events run @ pushedBy r op b \<and>
           lastPollIndex run' =
             (if op = GetNewEvents r then length (events run) else lastPollIndex run)"
  using assms
  by (cases op) (auto simp: runs_simps pushedBy_def split: option.splits)

lemma cursorOk_step: "cursorOk r b \<Longrightarrow> cursorOk r (step op b)"
  by (cases op) (auto simp: cursorOk_def runs_simps freshRun_def split: option.splits)

lemma cursorOk_exec: "cursorOk r b \<Longrightarrow> cursorOk r (exec ops b)"
  unfolding exec_def by (induction ops arbitrary: b) (simp_all add: cursorOk_step)

section \<open>Delivery by polling\<close>

lemma deliveredBy_poll:
  "runs b r = Some run \<Longrightarrow>
   deliveredBy r (GetNewEvents r) b = filter interesting (drop (lastPollIndex run) (events run))"
  by (simp add: deliveredBy_def getNewEvents_def Let_def)

lemma deliveredBy_other: "op \<noteq> GetNewEvents r \<Longrightarrow> deliveredBy r op b = []"
  by (cases op) (auto simp: deliveredBy_def)

lemma drop_take_split:
  "c \<le> n \<Longrightarrow> n \<le> c' \<Longrightarrow> drop c (take c' xs) = drop c (take n xs) @ drop n (take c' xs)"
proof -
  assume le: "c \<le> n" "n \<le> c'"
  have "take c' xs = take n (take c' xs) @ drop n (take c' xs)"
    by (rule append_take_drop_id [symmetric])
  also have "take n (take c' xs) = take n xs" using le by (simp add: min_def)
  finally have "drop c (take c' xs) = drop c (take n xs @ drop n (take c' xs))" by simp
  also have "\<dots> = drop c (take n xs) @ drop n (take c' xs)"
    using le by (cases "n \<le> length xs") auto
  finally show ?thesis .
qed

lemma delivered_segment:
  assumes "runs b r = Some run" "lastPollIndex run \<le> length (events run)"
    "CreateRun r \<notin> set ops"
  shows "\<exists>run'. runs (exec ops b) r = Some run' \<and>
           events run' = events run @ pushed r ops b \<and>
           lastPollIndex run \<le> lastPollIndex run' \<and>
           lastPollIndex run' \<le> length (events run') \<and>
           delivered r ops b =
             filter interesting (drop (lastPollIndex run) (take (lastPollIndex run') (events run')))"
  using assms
proof (induction ops arbitrary: b run)
  case Nil
  then show ?case by (simp add: exec_def)
next
  case (Cons op ops)
  from Cons.prems have ne: "op \<noteq> CreateRun r" and rest: "CreateRun r \<notin> set ops" by auto
  from step_run [OF Cons.prems(1) ne] obtain run1 where
    r1: "runs (step op b) r = Some run1"
    and e1: "events run1 = events run @ pushedBy r op b"
    and c1: "lastPollIndex run1 =
               (if op = GetNewEvents r then length (events run) else lastPollIndex run)"
    by blast
  from e1 c1 Cons.prems(2) have inv1: "lastPollIndex run1 \<le> length (events run1)"
    by (simp split: if_splits)
  from Cons.IH [OF r1 inv1 rest] obtain run' where
    r': "runs (exec ops (step op b)) r = Some run'"
    and e': "events run' = events run1 @ pushed r ops (step op b)"
    and lo: "lastPollIndex run1 \<le> lastPollIndex run'"
    and hi: "lastPollIndex run' \<le> length (events run')"
    and d': "delivered r ops (step op b) =
               filter interesting (drop (lastPollIndex run1) (take (lastPollIndex run') (events run')))"
    by blast
  have ev: "events run' = events run @ pushed r (op # ops) b"
    using e' e1 by simp
  have mono: "lastPollIndex run \<le> lastPollIndex run'"
    using lo c1 Cons.prems(2) by (simp split: if_splits)
  have del: "delivered r (op # ops) b =
      filter interesting (drop (lastPollIndex run) (take (lastPollIndex run') (events run')))"
  proof (cases "op = GetNewEvents r")
    case True
    let ?n = "length (events run)"
    have n: "lastPollIndex run1 = ?n" using c1 True by simp
    have tk: "take ?n (events run') = events run" using ev by simp
    have "drop (lastPollIndex run) (take (lastPollIndex run') (events run')) =
          drop (lastPollIndex run) (take ?n (events run')) @ drop ?n (take (lastPollIndex run') (events run'))"
      using drop_take_split [of "lastPollIndex run" ?n "lastPollIndex run'" "events run'"]
        Cons.prems(2) lo n by simp
    then show ?thesis
      using True d' n tk deliveredBy_poll [OF Cons.prems(1)] by simp
  next
    case False
    then show ?thesis using d' c1 deliveredBy_other [OF False, of b] by simp
  qed
  from r' ev mono hi del show ?case by (simp add: exec_def)
qed


lemma deliveredBy_eq:
  "deliveredBy r op b = (if op = GetNewEvents r then filter interesting (pending r b) else [])"
  by (cases op) (auto simp: deliveredBy_def pending_def getNewEvents_def Let_def split: option.splits)

lemma pending_step:
  "cursorOk r b \<Longrightarrow>
   pending r (step op b) =
     (if op = GetNewEvents r \<or> op = CreateRun r then [] else pending r b @ pushedBy r op b)"
  by (cases op)
     (auto simp: cursorOk_def pending_def pushedBy_def runs_simps freshRun_def split: option.splits)

lemma delivered_subseq:
  "cursorOk r b \<Longrightarrow>
   subseq (delivered r ops b) (filter interesting (pending r b @ pushed r ops b))"
proof (induction ops arbitrary: b)
  case Nil
  show ?case by simp
next
  case (Cons op ops)
  have ok: "cursorOk r (step op b)" using Cons.prems by (rule cursorOk_step)
  note IH = Cons.IH [OF ok]
  show ?case
  proof (cases "op = GetNewEvents r")
    case True
    then have "pushedBy r op b = []" by (simp add: pushedBy_def)
    moreover have "pending r (step op b) = []"
      using pending_step [OF Cons.prems, of op] True by simp
    ultimately show ?thesis
      using IH True by (simp add: deliveredBy_eq list_emb_append_mono)
  next
    case False
    note ng = False
    show ?thesis
    proof (cases "op = CreateRun r")
      case True
      then have "pushedBy r op b = []" by (simp add: pushedBy_def)
      moreover have "pending r (step op b) = []"
        using pending_step [OF Cons.prems, of op] True by simp
      ultimately have "subseq (delivered r (op # ops) b) (filter interesting (pushed r (op # ops) b))"
        using IH ng by (simp add: deliveredBy_eq)
      then show ?thesis
        by (simp add: list_emb_append2)
    next
      case False
      then have "pending r (step op b) = pending r b @ pushedBy r op b"
        using pending_step [OF Cons.prems, of op] ng by simp
      then show ?thesis
        using IH ng by (simp add: deliveredBy_eq)
    qed
  qed
qed

lemma poll_effect:
  "runs b r = Some run \<Longrightarrow>
   getNewEvents r b =
     (Some \<lparr>pStatus = status run,
            newEvents = filter interesting (drop (lastPollIndex run) (events run)),
            pAgentsResponded = agentsResponded run, pAgentsTotal = agentsTotal run\<rparr>,
      b\<lparr>runs := (runs b)(r \<mapsto> run\<lparr>lastPollIndex := length (events run)\<rparr>)\<rparr>)"
  by (simp add: getNewEvents_def Let_def)

text \<open>
  C1. Take any history \<open>ops\<close> from a buffer whose cursor for run \<open>r\<close> is within its log.
  The events returned by the successive \<open>getNewEvents(r)\<close> calls, concatenated in call
  order, are a subsequence of the interesting events among those pending at the start
  followed by those pushed during the history: every returned event is interesting, no
  occurrence of an event is returned twice, and the order is the order of appending.
  When the run is not created again during the history, the returned events are exactly
  the interesting events of the log between the first and the last cursor position.
  Each call returns the interesting events past the cursor and leaves the cursor equal
  to the log length at the time of the call.
\<close>

theorem C1_each_event_delivered_once:
  assumes "cursorOk r b"
  shows "subseq (delivered r ops b) (filter interesting (pending r b @ pushed r ops b)) \<and>
     (\<forall>run. runs b r = Some run \<and> CreateRun r \<notin> set ops \<longrightarrow>
        (\<exists>run'. runs (exec ops b) r = Some run' \<and>
           events run' = events run @ pushed r ops b \<and>
           delivered r ops b =
             filter interesting
               (drop (lastPollIndex run) (take (lastPollIndex run') (events run'))))) \<and>
     (\<forall>run. runs (exec ops b) r = Some run \<longrightarrow>
        (\<exists>p run'. getNewEvents r (exec ops b) = (Some p, exec (ops @ [GetNewEvents r]) b) \<and>
           newEvents p = filter interesting (drop (lastPollIndex run) (events run)) \<and>
           runs (exec (ops @ [GetNewEvents r]) b) r = Some run' \<and>
           events run' = events run \<and>
           lastPollIndex run' = length (events run')))"
proof (intro conjI allI impI)
  show "subseq (delivered r ops b) (filter interesting (pending r b @ pushed r ops b))"
    using assms by (rule delivered_subseq)
next
  fix run
  assume a: "runs b r = Some run \<and> CreateRun r \<notin> set ops"
  with assms have "lastPollIndex run \<le> length (events run)"
    by (simp add: cursorOk_def)
  with a delivered_segment [of b r run ops]
  show "\<exists>run'. runs (exec ops b) r = Some run' \<and>
           events run' = events run @ pushed r ops b \<and>
           delivered r ops b =
             filter interesting
               (drop (lastPollIndex run) (take (lastPollIndex run') (events run')))"
    by blast
next
  fix run
  assume a: "runs (exec ops b) r = Some run"
  have ex: "exec (ops @ [GetNewEvents r]) b = snd (getNewEvents r (exec ops b))"
    by (simp add: exec_def)
  show "\<exists>p run'. getNewEvents r (exec ops b) = (Some p, exec (ops @ [GetNewEvents r]) b) \<and>
           newEvents p = filter interesting (drop (lastPollIndex run) (events run)) \<and>
           runs (exec (ops @ [GetNewEvents r]) b) r = Some run' \<and>
           events run' = events run \<and>
           lastPollIndex run' = length (events run')"
    unfolding ex poll_effect [OF a] by simp
qed

theorem C1_each_event_delivered_once_witness:
  "cursorOk ''R1'' (createRun ''R1'' newBuffer) \<and>
   delivered ''R1''
     [AddEvent ''R1'' \<lparr>etype = ''agent_response'', props = []\<rparr>,
      AddEvent ''R1'' \<lparr>etype = ''heartbeat'', props = []\<rparr>,
      GetNewEvents ''R1'',
      AddEvent ''R1'' \<lparr>etype = ''phase_start'', props = []\<rparr>,
      GetNewEvents ''R1'',
      GetNewEvents ''R1'']
     (createRun ''R1'' newBuffer)
   = [\<lparr>etype = ''agent_response'', props = []\<rparr>, \<lparr>etype = ''phase_start'', props = []\<rparr>] \<and>
   subseq
     (delivered ''R1''
       [AddEvent ''R1'' \<lparr>etype = ''agent_response'', props = []\<rparr>,
        AddEvent ''R1'' \<lparr>etype = ''heartbeat'', props = []\<rparr>,
        GetNewEvents ''R1'',
        AddEvent ''R1'' \<lparr>etype = ''phase_start'', props = []\<rparr>,
        GetNewEvents ''R1'',
        GetNewEvents ''R1'']
       (createRun ''R1'' newBuffer))
     [\<lparr>etype = ''agent_response'', props = []\<rparr>, \<lparr>etype = ''phase_start'', props = []\<rparr>]"
proof -
  have ok: "cursorOk ''R1'' (createRun ''R1'' newBuffer)"
    by (simp add: cursorOk_def runs_createRun freshRun_def)
  have ev: "delivered ''R1''
     [AddEvent ''R1'' \<lparr>etype = ''agent_response'', props = []\<rparr>,
      AddEvent ''R1'' \<lparr>etype = ''heartbeat'', props = []\<rparr>,
      GetNewEvents ''R1'',
      AddEvent ''R1'' \<lparr>etype = ''phase_start'', props = []\<rparr>,
      GetNewEvents ''R1'',
      GetNewEvents ''R1'']
     (createRun ''R1'' newBuffer)
   = [\<lparr>etype = ''agent_response'', props = []\<rparr>, \<lparr>etype = ''phase_start'', props = []\<rparr>]"
    by (simp add: deliveredBy_def getNewEvents_def runs_simps newBuffer_def freshRun_def
        addEvent_switch_def interesting_iff)
  have pe: "pending ''R1'' (createRun ''R1'' newBuffer) = []"
    by (simp add: pending_def runs_createRun freshRun_def)
  have pu: "pushed ''R1''
     [AddEvent ''R1'' \<lparr>etype = ''agent_response'', props = []\<rparr>,
      AddEvent ''R1'' \<lparr>etype = ''heartbeat'', props = []\<rparr>,
      GetNewEvents ''R1'',
      AddEvent ''R1'' \<lparr>etype = ''phase_start'', props = []\<rparr>,
      GetNewEvents ''R1'',
      GetNewEvents ''R1'']
     (createRun ''R1'' newBuffer)
   = [\<lparr>etype = ''agent_response'', props = []\<rparr>, \<lparr>etype = ''heartbeat'', props = []\<rparr>,
      \<lparr>etype = ''phase_start'', props = []\<rparr>]"
    by (simp add: pushedBy_def runs_simps newBuffer_def freshRun_def)
  from C1_each_event_delivered_once [OF ok, of
     "[AddEvent ''R1'' \<lparr>etype = ''agent_response'', props = []\<rparr>,
      AddEvent ''R1'' \<lparr>etype = ''heartbeat'', props = []\<rparr>,
      GetNewEvents ''R1'',
      AddEvent ''R1'' \<lparr>etype = ''phase_start'', props = []\<rparr>,
      GetNewEvents ''R1'',
      GetNewEvents ''R1'']"]
  have "subseq
     (delivered ''R1''
       [AddEvent ''R1'' \<lparr>etype = ''agent_response'', props = []\<rparr>,
        AddEvent ''R1'' \<lparr>etype = ''heartbeat'', props = []\<rparr>,
        GetNewEvents ''R1'',
        AddEvent ''R1'' \<lparr>etype = ''phase_start'', props = []\<rparr>,
        GetNewEvents ''R1'',
        GetNewEvents ''R1'']
       (createRun ''R1'' newBuffer))
     [\<lparr>etype = ''agent_response'', props = []\<rparr>, \<lparr>etype = ''phase_start'', props = []\<rparr>]"
    unfolding pe pu by (simp add: interesting_iff)
  with ok ev show ?thesis by blast
qed


section \<open>The cursor and the log\<close>

text \<open>
  C6, as the code has it. In every history of the buffer the read cursor of a run never
  exceeds its log length. \<open>addEvent\<close> on an existing run appends exactly the event at
  the end of the log; no operation other than \<open>createRun\<close> of the same id changes or
  removes an event already in the log. \<open>createRun\<close> of an id replaces the log by the
  empty one.
\<close>

theorem C6_cursor_bounded_log_grows:
  "cursorOk r (exec ops newBuffer) \<and>
   (\<forall>(b::EventBuffer) run. runs b r = Some run \<longrightarrow>
      (\<exists>run'. runs (addEvent r e b) r = Some run' \<and> events run' = events run @ [e])) \<and>
   (\<forall>(b::EventBuffer) run. runs b r = Some run \<and> op \<noteq> CreateRun r \<longrightarrow>
      (\<exists>run'. runs (step op b) r = Some run' \<and>
         length (events run) \<le> length (events run') \<and>
         take (length (events run)) (events run') = events run)) \<and>
   (\<forall>b. map_option events (runs (createRun r b) r) = Some [])"
proof (intro conjI allI impI)
  have "cursorOk r newBuffer" by (simp add: cursorOk_def newBuffer_def)
  then show "cursorOk r (exec ops newBuffer)" by (rule cursorOk_exec)
next
  fix b :: EventBuffer and run assume "runs b r = Some run"
  then show "\<exists>run'. runs (addEvent r e b) r = Some run' \<and> events run' = events run @ [e]"
    by (simp add: addEvent_run)
next
  fix b :: EventBuffer and run assume "runs b r = Some run \<and> op \<noteq> CreateRun r"
  then obtain run' where "runs (step op b) r = Some run'"
    "events run' = events run @ pushedBy r op b"
    using step_run [of b r run op] by blast
  then show "\<exists>run'. runs (step op b) r = Some run' \<and>
         length (events run) \<le> length (events run') \<and>
         take (length (events run)) (events run') = events run"
    by simp
next
  fix b show "map_option events (runs (createRun r b) r) = Some []"
    by (simp add: runs_createRun freshRun_def)
qed

theorem C6_cursor_bounded_log_grows_witness:
  "cursorOk ''R1'' (exec [CreateRun ''R1'', AddEvent ''R1'' \<lparr>etype = ''error'', props = []\<rparr>,
                          GetNewEvents ''R1''] newBuffer) \<and>
   map_option events (runs (addEvent ''R1'' \<lparr>etype = ''error'', props = []\<rparr>
        (createRun ''R1'' newBuffer)) ''R1'') = Some [\<lparr>etype = ''error'', props = []\<rparr>] \<and>
   map_option events (runs (step (GetNewEvents ''R1'')
        (addEvent ''R1'' \<lparr>etype = ''error'', props = []\<rparr> (createRun ''R1'' newBuffer))) ''R1'')
     = Some [\<lparr>etype = ''error'', props = []\<rparr>]"
proof -
  note inst = C6_cursor_bounded_log_grows [of "''R1''" _ "\<lparr>etype = ''error'', props = []\<rparr>"
      "GetNewEvents ''R1''"]
  have r0: "runs (createRun ''R1'' newBuffer) ''R1'' = Some freshRun"
    by (simp add: runs_createRun)
  from inst r0 obtain run1 where
    r1: "runs (addEvent ''R1'' \<lparr>etype = ''error'', props = []\<rparr> (createRun ''R1'' newBuffer)) ''R1''
          = Some run1"
    and e1: "events run1 = events freshRun @ [\<lparr>etype = ''error'', props = []\<rparr>]"
    by blast
  have ne: "GetNewEvents ''R1'' \<noteq> CreateRun ''R1''" by simp
  from inst r1 ne obtain run2 where
    r2: "runs (step (GetNewEvents ''R1'')
          (addEvent ''R1'' \<lparr>etype = ''error'', props = []\<rparr> (createRun ''R1'' newBuffer))) ''R1''
          = Some run2"
    and l2: "length (events run1) \<le> length (events run2)"
    and e2: "take (length (events run1)) (events run2) = events run1"
    by blast
  have same: "events run2 = events run1"
    using r1 r2 by (auto simp: runs_getNewEvents)
  from inst have "cursorOk ''R1'' (exec [CreateRun ''R1'',
      AddEvent ''R1'' \<lparr>etype = ''error'', props = []\<rparr>, GetNewEvents ''R1''] newBuffer)"
    by blast
  with r1 e1 r2 same show ?thesis by (simp add: freshRun_def)
qed

text \<open>
  The log is not append-only across a second \<open>createRun\<close>: the appended event is gone.
\<close>

theorem C6_recreated_run_counterexample:
  "map_option events (runs (exec [CreateRun ''R1'',
        AddEvent ''R1'' \<lparr>etype = ''agent_response'', props = []\<rparr>] newBuffer) ''R1'')
     = Some [\<lparr>etype = ''agent_response'', props = []\<rparr>] \<and>
   map_option events (runs (exec [CreateRun ''R1'',
        AddEvent ''R1'' \<lparr>etype = ''agent_response'', props = []\<rparr>,
        CreateRun ''R1''] newBuffer) ''R1'')
     = Some []"
  by (simp add: exec_def runs_simps newBuffer_def freshRun_def addEvent_switch_def)

section \<open>Run status\<close>

lemma ingest_terminal:
  "runs b r = Some run \<Longrightarrow> status run \<noteq> Running \<Longrightarrow>
   \<exists>run'. runs (fold (addEvent r) es b) r = Some run' \<and> status run' \<noteq> Running \<and>
          events run' = events run @ es"
proof (induction es arbitrary: b run)
  case Nil
  then show ?case by simp
next
  case (Cons e es)
  let ?run1 = "addEvent_switch e (run\<lparr>events := events run @ [e]\<rparr>)"
  have r1: "runs (addEvent r e b) r = Some ?run1"
    using Cons.prems(1) by (rule addEvent_run)
  have s1: "status ?run1 \<noteq> Running"
    using Cons.prems(2) by (simp add: switch_status)
  from Cons.IH [OF r1 s1] show ?case by simp
qed

text \<open>
  C7, as the code has it. \<open>addEvent\<close> leaves the status as it is unless the event's type
  is \<open>final\<close>, \<open>error\<close> or \<open>cancelled\<close>; these set \<open>completed\<close> (or \<open>canceled\<close>), \<open>failed\<close>
  and \<open>canceled\<close> whatever the status was, so no ingested event returns a run to
  \<open>running\<close>, and a run that has left \<open>running\<close> stays terminal under any further events,
  though not always in the same terminal status. \<open>setStatus\<close> overrides any status.
  Events ingested after a terminal status still append to the log and update the
  counters.
\<close>

theorem C7_status_after_events:
  assumes "runs b r = Some run"
  shows "(\<exists>run'. runs (addEvent r e b) r = Some run' \<and>
           status run' =
             (if etype e = ''final'' then
                (if getField e ''status'' = JStr ''canceled'' then Canceled else Completed)
              else if etype e = ''error'' then Failed
              else if etype e = ''cancelled'' then Canceled
              else status run) \<and>
           events run' = events run @ [e] \<and>
           agentsResponded run' =
             (if etype e = ''agent_response'' then Suc (agentsResponded run)
              else agentsResponded run) \<and>
           agentsTotal run' =
             (if etype e = ''agents_created'' then nullish (getField e ''count'') (JNum 0)
              else agentsTotal run) \<and>
           estimatedCost run' =
             (if etype e = ''cost_estimation''
              then nullish (getField e ''estimated_cost'') (JNum 0)
              else estimatedCost run)) \<and>
         (status run \<noteq> Running \<longrightarrow>
            (\<exists>run'. runs (fold (addEvent r) es b) r = Some run' \<and> status run' \<noteq> Running \<and>
               events run' = events run @ es)) \<and>
         runs (setStatus r st b) r = Some (run\<lparr>status := st\<rparr>)"
proof (intro conjI impI)
  show "\<exists>run'. runs (addEvent r e b) r = Some run' \<and>
           status run' =
             (if etype e = ''final'' then
                (if getField e ''status'' = JStr ''canceled'' then Canceled else Completed)
              else if etype e = ''error'' then Failed
              else if etype e = ''cancelled'' then Canceled
              else status run) \<and>
           events run' = events run @ [e] \<and>
           agentsResponded run' =
             (if etype e = ''agent_response'' then Suc (agentsResponded run)
              else agentsResponded run) \<and>
           agentsTotal run' =
             (if etype e = ''agents_created'' then nullish (getField e ''count'') (JNum 0)
              else agentsTotal run) \<and>
           estimatedCost run' =
             (if etype e = ''cost_estimation''
              then nullish (getField e ''estimated_cost'') (JNum 0)
              else estimatedCost run)"
    unfolding addEvent_run [OF assms]
    by (simp add: switch_status switch_agentsResponded switch_agentsTotal switch_estimatedCost)
next
  assume "status run \<noteq> Running"
  with assms show "\<exists>run'. runs (fold (addEvent r) es b) r = Some run' \<and>
      status run' \<noteq> Running \<and> events run' = events run @ es"
    by (rule ingest_terminal)
next
  show "runs (setStatus r st b) r = Some (run\<lparr>status := st\<rparr>)"
    using assms by (simp add: runs_setStatus)
qed

theorem C7_status_after_events_witness:
  "map_option status (runs (addEvent ''R1'' \<lparr>etype = ''final'', props = []\<rparr>
        (createRun ''R1'' newBuffer)) ''R1'') = Some Completed \<and>
   (\<exists>run'. runs (fold (addEvent ''R1'')
        [\<lparr>etype = ''agent_response'', props = []\<rparr>, \<lparr>etype = ''error'', props = []\<rparr>]
        (addEvent ''R1'' \<lparr>etype = ''final'', props = []\<rparr> (createRun ''R1'' newBuffer))) ''R1''
      = Some run' \<and> status run' \<noteq> Running \<and>
      events run' = [\<lparr>etype = ''final'', props = []\<rparr>, \<lparr>etype = ''agent_response'', props = []\<rparr>,
                     \<lparr>etype = ''error'', props = []\<rparr>])"
proof -
  have r0: "runs (createRun ''R1'' newBuffer) ''R1'' = Some freshRun"
    by (simp add: runs_createRun)
  from C7_status_after_events [OF r0, of "\<lparr>etype = ''final'', props = []\<rparr>"]
  obtain run1 where
    r1: "runs (addEvent ''R1'' \<lparr>etype = ''final'', props = []\<rparr> (createRun ''R1'' newBuffer)) ''R1''
          = Some run1"
    and s1: "status run1 = Completed"
    and e1: "events run1 = events freshRun @ [\<lparr>etype = ''final'', props = []\<rparr>]"
    by (auto simp: getField_def)
  from C7_status_after_events [OF r1, of _
      "[\<lparr>etype = ''agent_response'', props = []\<rparr>, \<lparr>etype = ''error'', props = []\<rparr>]"] s1
  have "\<exists>run'. runs (fold (addEvent ''R1'')
        [\<lparr>etype = ''agent_response'', props = []\<rparr>, \<lparr>etype = ''error'', props = []\<rparr>]
        (addEvent ''R1'' \<lparr>etype = ''final'', props = []\<rparr> (createRun ''R1'' newBuffer))) ''R1''
      = Some run' \<and> status run' \<noteq> Running \<and>
      events run' = events run1 @
        [\<lparr>etype = ''agent_response'', props = []\<rparr>, \<lparr>etype = ''error'', props = []\<rparr>]"
    by simp
  with r1 s1 e1 show ?thesis by (simp add: freshRun_def)
qed

text \<open>
  A terminal status does change to a different one: a run completed by a \<open>final\<close> event
  becomes \<open>failed\<close> when an \<open>error\<close> event follows.
\<close>

theorem C7_terminal_status_overwritten_counterexample:
  "map_option status (runs (addEvent ''R1'' \<lparr>etype = ''final'', props = []\<rparr>
        (createRun ''R1'' newBuffer)) ''R1'') = Some Completed \<and>
   map_option status (runs (addEvent ''R1'' \<lparr>etype = ''error'', props = []\<rparr>
        (addEvent ''R1'' \<lparr>etype = ''final'', props = []\<rparr>
          (createRun ''R1'' newBuffer))) ''R1'') = Some Failed"
  by (simp add: runs_simps newBuffer_def freshRun_def addEvent_switch_def getField_def propOf_def Let_def)


section \<open>Waiters\<close>

subsection \<open>The invariant and its preservation\<close>

lemma waitersInvI:
  assumes "\<And>r l. waiters b r = Some l \<Longrightarrow>
        l \<noteq> [] \<and> distinct l \<and>
        (\<forall>fn \<in> set l. fn < length (closures b) \<and> wRunId (closures b ! fn) = r \<and>
                       \<not> settled (closures b ! fn))"
    and "\<And>fn. fn < length (closures b) \<Longrightarrow> settled (closures b ! fn) \<Longrightarrow>
        resolveCalls (closures b ! fn) = 1 \<and> \<not> timerPending (closures b ! fn)"
    and "\<And>fn. fn < length (closures b) \<Longrightarrow> \<not> settled (closures b ! fn) \<Longrightarrow>
        resolveCalls (closures b ! fn) = 0 \<and>
        (fn \<in> P \<or>
         (timerPending (closures b ! fn) \<and>
          (\<exists>l. waiters b (wRunId (closures b ! fn)) = Some l \<and> fn \<in> set l)))"
  shows "waitersInv P b"
  unfolding waitersInv_def
proof (rule conjI)
  show "\<forall>r l. waiters b r = Some l \<longrightarrow>
        l \<noteq> [] \<and> distinct l \<and>
        (\<forall>fn \<in> set l. fn < length (closures b) \<and> wRunId (closures b ! fn) = r \<and>
                       \<not> settled (closures b ! fn))"
    using assms(1) by blast
next
  show "\<forall>fn < length (closures b).
        if settled (closures b ! fn)
        then resolveCalls (closures b ! fn) = 1 \<and> \<not> timerPending (closures b ! fn)
        else resolveCalls (closures b ! fn) = 0 \<and>
             (fn \<in> P \<or>
              (timerPending (closures b ! fn) \<and>
               (\<exists>l. waiters b (wRunId (closures b ! fn)) = Some l \<and> fn \<in> set l)))"
  proof (intro allI impI)
    fix fn assume "fn < length (closures b)"
    with assms(2) [of fn] assms(3) [of fn]
    show "if settled (closures b ! fn)
        then resolveCalls (closures b ! fn) = 1 \<and> \<not> timerPending (closures b ! fn)
        else resolveCalls (closures b ! fn) = 0 \<and>
             (fn \<in> P \<or>
              (timerPending (closures b ! fn) \<and>
               (\<exists>l. waiters b (wRunId (closures b ! fn)) = Some l \<and> fn \<in> set l)))"
      by (cases "settled (closures b ! fn)") simp_all
  qed
qed

lemma waitersInv_lists:
  "waitersInv P b \<Longrightarrow> waiters b r = Some l \<Longrightarrow>
     l \<noteq> [] \<and> distinct l \<and>
     (\<forall>fn \<in> set l. fn < length (closures b) \<and> wRunId (closures b ! fn) = r \<and>
                    \<not> settled (closures b ! fn))"
  unfolding waitersInv_def by blast

lemma waitersInv_settled:
  assumes "waitersInv P b" "fn < length (closures b)" "settled (closures b ! fn)"
  shows "resolveCalls (closures b ! fn) = 1 \<and> \<not> timerPending (closures b ! fn)"
proof -
  from assms(1) have "\<forall>fn < length (closures b).
        if settled (closures b ! fn)
        then resolveCalls (closures b ! fn) = 1 \<and> \<not> timerPending (closures b ! fn)
        else resolveCalls (closures b ! fn) = 0 \<and>
             (fn \<in> P \<or>
              (timerPending (closures b ! fn) \<and>
               (\<exists>l. waiters b (wRunId (closures b ! fn)) = Some l \<and> fn \<in> set l)))"
    unfolding waitersInv_def by (rule conjunct2)
  with assms(2) have "if settled (closures b ! fn)
        then resolveCalls (closures b ! fn) = 1 \<and> \<not> timerPending (closures b ! fn)
        else resolveCalls (closures b ! fn) = 0 \<and>
             (fn \<in> P \<or>
              (timerPending (closures b ! fn) \<and>
               (\<exists>l. waiters b (wRunId (closures b ! fn)) = Some l \<and> fn \<in> set l)))"
    by blast
  with assms(3) show ?thesis by simp
qed

lemma waitersInv_unsettled:
  assumes "waitersInv P b" "fn < length (closures b)" "\<not> settled (closures b ! fn)"
  shows "resolveCalls (closures b ! fn) = 0 \<and>
         (fn \<in> P \<or>
          (timerPending (closures b ! fn) \<and>
           (\<exists>l. waiters b (wRunId (closures b ! fn)) = Some l \<and> fn \<in> set l)))"
proof -
  from assms(1) have "\<forall>fn < length (closures b).
        if settled (closures b ! fn)
        then resolveCalls (closures b ! fn) = 1 \<and> \<not> timerPending (closures b ! fn)
        else resolveCalls (closures b ! fn) = 0 \<and>
             (fn \<in> P \<or>
              (timerPending (closures b ! fn) \<and>
               (\<exists>l. waiters b (wRunId (closures b ! fn)) = Some l \<and> fn \<in> set l)))"
    unfolding waitersInv_def by (rule conjunct2)
  with assms(2) have "if settled (closures b ! fn)
        then resolveCalls (closures b ! fn) = 1 \<and> \<not> timerPending (closures b ! fn)
        else resolveCalls (closures b ! fn) = 0 \<and>
             (fn \<in> P \<or>
              (timerPending (closures b ! fn) \<and>
               (\<exists>l. waiters b (wRunId (closures b ! fn)) = Some l \<and> fn \<in> set l)))"
    by blast
  with assms(3) show ?thesis by simp
qed

lemma settle_settled:
  "\<not> fn < length (closures b) \<or> settled (closures b ! fn) \<Longrightarrow> settle fn b = b"
  by (auto simp: settle_def)

lemma closures_removeWaiter: "closures (removeWaiter r fn b) = closures b"
  by (simp add: removeWaiter_def Let_def split: option.splits)

lemma waiters_removeWaiter:
  "waiters (removeWaiter r fn b) =
     (case waiters b r of
        None \<Rightarrow> waiters b
      | Some l \<Rightarrow> if remove1 fn l = [] then (waiters b)(r := None)
                  else (waiters b)(r \<mapsto> remove1 fn l))"
  by (simp add: removeWaiter_def Let_def split: option.splits)

lemma closures_settle:
  "fn < length (closures b) \<Longrightarrow> \<not> settled (closures b ! fn) \<Longrightarrow>
   closures (settle fn b) = (closures b)[fn := wake (closures b ! fn)]"
  by (simp add: settle_def Let_def closures_removeWaiter wake_def)

lemma waiters_settle:
  "fn < length (closures b) \<Longrightarrow> \<not> settled (closures b ! fn) \<Longrightarrow>
   waiters (settle fn b) =
     (case waiters b (wRunId (closures b ! fn)) of
        None \<Rightarrow> waiters b
      | Some l \<Rightarrow> if remove1 fn l = [] then (waiters b)(wRunId (closures b ! fn) := None)
                  else (waiters b)(wRunId (closures b ! fn) \<mapsto> remove1 fn l))"
  by (simp add: settle_def Let_def waiters_removeWaiter split: option.splits)

lemma length_closures_settle [simp]: "length (closures (settle fn b)) = length (closures b)"
  by (cases "fn < length (closures b) \<and> \<not> settled (closures b ! fn)")
     (auto simp: closures_settle settle_settled)

lemma nth_closures_settle:
  "closures (settle fn b) ! g =
     (if g = fn \<and> fn < length (closures b) \<and> \<not> settled (closures b ! fn)
      then wake (closures b ! fn) else closures b ! g)"
  by (cases "fn < length (closures b) \<and> \<not> settled (closures b ! fn)")
     (auto simp: closures_settle settle_settled)

lemma waitersInv_settle:
  assumes inv: "waitersInv P b"
  shows "waitersInv (P - {fn}) (settle fn b)"
proof (cases "fn < length (closures b) \<and> \<not> settled (closures b ! fn)")
  case False
  then have same: "settle fn b = b" by (auto simp: settle_settled)
  show ?thesis
    unfolding same
  proof (rule waitersInvI)
    fix r l assume "waiters b r = Some l"
    with inv show "l \<noteq> [] \<and> distinct l \<and>
        (\<forall>fn \<in> set l. fn < length (closures b) \<and> wRunId (closures b ! fn) = r \<and>
                       \<not> settled (closures b ! fn))"
      by (rule waitersInv_lists)
  next
    fix g assume "g < length (closures b)" "settled (closures b ! g)"
    with inv show "resolveCalls (closures b ! g) = 1 \<and> \<not> timerPending (closures b ! g)"
      by (rule waitersInv_settled)
  next
    fix g assume g: "g < length (closures b)" "\<not> settled (closures b ! g)"
    with False have "g \<noteq> fn" by auto
    with waitersInv_unsettled [OF inv g]
    show "resolveCalls (closures b ! g) = 0 \<and>
        (g \<in> P - {fn} \<or>
         (timerPending (closures b ! g) \<and>
          (\<exists>l. waiters b (wRunId (closures b ! g)) = Some l \<and> g \<in> set l)))"
      by auto
  qed
next
  case True
  then have lt: "fn < length (closures b)" and un: "\<not> settled (closures b ! fn)" by auto
  note ws = waiters_settle [OF lt un]
  let ?r = "wRunId (closures b ! fn)"
  show ?thesis
  proof (rule waitersInvI)
    fix r l assume w: "waiters (settle fn b) r = Some l"
    show "l \<noteq> [] \<and> distinct l \<and>
        (\<forall>g \<in> set l. g < length (closures (settle fn b)) \<and>
            wRunId (closures (settle fn b) ! g) = r \<and> \<not> settled (closures (settle fn b) ! g))"
    proof (cases "waiters b ?r")
      case None
      with w ws have wl: "waiters b r = Some l" by simp
      from waitersInv_lists [OF inv wl] None wl have "fn \<notin> set l" by auto
      with waitersInv_lists [OF inv wl] show ?thesis by (auto simp: nth_closures_settle)
    next
      case (Some l0)
      note l0 = waitersInv_lists [OF inv Some]
      show ?thesis
      proof (cases "r = ?r")
        case True
        with w ws Some have l: "l = remove1 fn l0" "remove1 fn l0 \<noteq> []"
          by (auto split: if_splits)
        with l0 have "fn \<notin> set l" "set l \<subseteq> set l0" "distinct l"
          by auto
        with l0 l True show ?thesis by (auto simp: nth_closures_settle)
      next
        case False
        with w ws Some have wl: "waiters b r = Some l" by (auto split: if_splits)
        from waitersInv_lists [OF inv wl] False have "fn \<notin> set l" by auto
        with waitersInv_lists [OF inv wl] show ?thesis by (auto simp: nth_closures_settle)
      qed
    qed
  next
    fix g assume "g < length (closures (settle fn b))" "settled (closures (settle fn b) ! g)"
    then have g: "g < length (closures b)"
      and s: "g = fn \<or> (g \<noteq> fn \<and> settled (closures b ! g))"
      by (auto simp: nth_closures_settle split: if_splits)
    from s show "resolveCalls (closures (settle fn b) ! g) = 1 \<and>
        \<not> timerPending (closures (settle fn b) ! g)"
    proof
      assume "g = fn"
      with waitersInv_unsettled [OF inv lt un] lt un show ?thesis
        by (simp add: nth_closures_settle wake_def)
    next
      assume a: "g \<noteq> fn \<and> settled (closures b ! g)"
      with waitersInv_settled [OF inv g] show ?thesis
        by (simp add: nth_closures_settle)
    qed
  next
    fix g assume "g < length (closures (settle fn b))" "\<not> settled (closures (settle fn b) ! g)"
    then have g: "g < length (closures b)" and ne: "g \<noteq> fn" and ug: "\<not> settled (closures b ! g)"
      using lt un by (auto simp: nth_closures_settle wake_def split: if_splits)
    have same: "closures (settle fn b) ! g = closures b ! g"
      using ne by (simp add: nth_closures_settle)
    from waitersInv_unsettled [OF inv g ug] have r0: "resolveCalls (closures b ! g) = 0" and
      alt: "g \<in> P \<or> (timerPending (closures b ! g) \<and>
             (\<exists>l. waiters b (wRunId (closures b ! g)) = Some l \<and> g \<in> set l))"
      by auto
    from alt show "resolveCalls (closures (settle fn b) ! g) = 0 \<and>
        (g \<in> P - {fn} \<or>
         (timerPending (closures (settle fn b) ! g) \<and>
          (\<exists>l. waiters (settle fn b) (wRunId (closures (settle fn b) ! g)) = Some l \<and>
               g \<in> set l)))"
    proof
      assume "g \<in> P"
      with ne r0 same show ?thesis by simp
    next
      assume reg: "timerPending (closures b ! g) \<and>
             (\<exists>l. waiters b (wRunId (closures b ! g)) = Some l \<and> g \<in> set l)"
      then obtain l where l: "waiters b (wRunId (closures b ! g)) = Some l" "g \<in> set l"
        by blast
      have "\<exists>l'. waiters (settle fn b) (wRunId (closures b ! g)) = Some l' \<and> g \<in> set l'"
      proof (cases "wRunId (closures b ! g) = ?r")
        case True
        with l have in': "g \<in> set (remove1 fn l)" using ne by simp
        then have "remove1 fn l \<noteq> []" by auto
        with True l in' show ?thesis by (simp add: ws)
      next
        case False
        with l show ?thesis by (auto simp: ws split: option.splits)
      qed
      with reg r0 same show ?thesis by simp
    qed
  qed
qed

lemma waitersInv_fold_settle:
  "waitersInv P b \<Longrightarrow> waitersInv (P - set l) (fold settle l b)"
proof (induction l arbitrary: P b)
  case Nil
  then show ?case by simp
next
  case (Cons fn l)
  from Cons.prems have "waitersInv (P - {fn}) (settle fn b)" by (rule waitersInv_settle)
  from Cons.IH [OF this] have "waitersInv (P - {fn} - set l) (fold settle (fn # l) b)" by simp
  moreover have "P - {fn} - set l = P - set (fn # l)" by auto
  ultimately show ?case by simp
qed

lemma waitersInv_unregister:
  assumes inv: "waitersInv {} b" and reg: "waiters b r = Some l"
  shows "waitersInv (set l) (b\<lparr>waiters := (waiters b)(r := None)\<rparr>)"
proof (rule waitersInvI)
  fix r' l' assume "waiters (b\<lparr>waiters := (waiters b)(r := None)\<rparr>) r' = Some l'"
  then have "waiters b r' = Some l'" by (simp split: if_splits)
  from waitersInv_lists [OF inv this]
  show "l' \<noteq> [] \<and> distinct l' \<and>
      (\<forall>fn \<in> set l'. fn < length (closures (b\<lparr>waiters := (waiters b)(r := None)\<rparr>)) \<and>
         wRunId (closures (b\<lparr>waiters := (waiters b)(r := None)\<rparr>) ! fn) = r' \<and>
         \<not> settled (closures (b\<lparr>waiters := (waiters b)(r := None)\<rparr>) ! fn))"
    by simp
next
  fix g assume "g < length (closures (b\<lparr>waiters := (waiters b)(r := None)\<rparr>))"
    "settled (closures (b\<lparr>waiters := (waiters b)(r := None)\<rparr>) ! g)"
  with waitersInv_settled [OF inv, of g]
  show "resolveCalls (closures (b\<lparr>waiters := (waiters b)(r := None)\<rparr>) ! g) = 1 \<and>
      \<not> timerPending (closures (b\<lparr>waiters := (waiters b)(r := None)\<rparr>) ! g)"
    by simp
next
  fix g assume "g < length (closures (b\<lparr>waiters := (waiters b)(r := None)\<rparr>))"
    "\<not> settled (closures (b\<lparr>waiters := (waiters b)(r := None)\<rparr>) ! g)"
  with waitersInv_unsettled [OF inv, of g] reg
  show "resolveCalls (closures (b\<lparr>waiters := (waiters b)(r := None)\<rparr>) ! g) = 0 \<and>
      (g \<in> set l \<or>
       (timerPending (closures (b\<lparr>waiters := (waiters b)(r := None)\<rparr>) ! g) \<and>
        (\<exists>la. waiters (b\<lparr>waiters := (waiters b)(r := None)\<rparr>)
                (wRunId (closures (b\<lparr>waiters := (waiters b)(r := None)\<rparr>) ! g)) = Some la \<and>
              g \<in> set la)))"
    by auto
qed

lemma waitersOk_notifyWaiters: "waitersOk b \<Longrightarrow> waitersOk (notifyWaiters r b)"
proof (cases "waiters b r")
  case None
  assume "waitersOk b"
  with None show ?thesis by (simp add: notifyWaiters_def)
next
  case (Some l)
  assume "waitersOk b"
  then have "waitersInv (set l) (b\<lparr>waiters := (waiters b)(r := None)\<rparr>)"
    using Some by (simp add: waitersOk_def waitersInv_unregister)
  from waitersInv_fold_settle [OF this, of l] Some show ?thesis
    by (simp add: notifyWaiters_def waitersOk_def)
qed

lemma waitersInv_cong:
  "waiters b' = waiters b \<Longrightarrow> closures b' = closures b \<Longrightarrow> waitersInv P b' = waitersInv P b"
  by (simp add: waitersInv_def)

lemma settle_runs_update: "settle fn (b\<lparr>runs := x\<rparr>) = (settle fn b)\<lparr>runs := x\<rparr>"
  by (simp add: settle_def Let_def removeWaiter_def split: option.splits)

lemma fold_settle_runs_update: "fold settle l (b\<lparr>runs := x\<rparr>) = (fold settle l b)\<lparr>runs := x\<rparr>"
  by (induction l arbitrary: b) (simp_all add: settle_runs_update)

lemma notifyWaiters_runs_update:
  "notifyWaiters r (b\<lparr>runs := x\<rparr>) = (notifyWaiters r b)\<lparr>runs := x\<rparr>"
proof (cases "waiters b r")
  case None
  then show ?thesis by (simp add: notifyWaiters_def)
next
  case (Some l)
  have "b\<lparr>runs := x\<rparr>\<lparr>waiters := (waiters b)(r := None)\<rparr> =
        b\<lparr>waiters := (waiters b)(r := None)\<rparr>\<lparr>runs := x\<rparr>"
    by (cases b) simp
  then have "fold settle l (b\<lparr>runs := x\<rparr>\<lparr>waiters := (waiters b)(r := None)\<rparr>) =
        fold settle l (b\<lparr>waiters := (waiters b)(r := None)\<rparr>\<lparr>runs := x\<rparr>)"
    by (rule arg_cong)
  also have "\<dots> = (fold settle l (b\<lparr>waiters := (waiters b)(r := None)\<rparr>))\<lparr>runs := x\<rparr>"
    by (rule fold_settle_runs_update)
  finally show ?thesis
    using Some by (simp add: notifyWaiters_def)
qed

lemma addEvent_cases:
  "addEvent r e b =
     (case runs b r of
        None \<Rightarrow> b
      | Some run \<Rightarrow>
          (if interesting e \<or> etype e = ''cancelled'' then notifyWaiters r b else b)
            \<lparr>runs := (runs b)(r \<mapsto> addEvent_switch e (run\<lparr>events := events run @ [e]\<rparr>))\<rparr>)"
  by (simp add: addEvent_def Let_def notifyWaiters_runs_update split: option.splits)

lemma waitersOk_runs_update: "waitersOk (c\<lparr>runs := x\<rparr>) = waitersOk c"
  unfolding waitersOk_def by (rule waitersInv_cong) simp_all

lemma waitersOk_addEvent: "waitersOk b \<Longrightarrow> waitersOk (addEvent r e b)"
  using waitersOk_notifyWaiters [of b r]
  by (simp add: addEvent_cases waitersOk_runs_update split: option.splits)

lemma waitersOk_timerFires:
  assumes ok: "waitersOk b"
  shows "waitersOk (timerFires fn b)"
proof (cases "fn < length (closures b) \<and> timerPending (closures b ! fn)")
  case False
  with ok show ?thesis by (auto simp: timerFires_def)
next
  case True
  let ?b1 = "b\<lparr>closures := (closures b)[fn := (closures b ! fn)\<lparr>timerPending := False\<rparr>]\<rparr>"
  from ok have inv: "waitersInv {} b" by (simp add: waitersOk_def)
  have "waitersInv {fn} ?b1"
  proof (rule waitersInvI)
    fix r l assume "waiters ?b1 r = Some l"
    then have "waiters b r = Some l" by simp
    from waitersInv_lists [OF inv this] True
    show "l \<noteq> [] \<and> distinct l \<and>
        (\<forall>g \<in> set l. g < length (closures ?b1) \<and> wRunId (closures ?b1 ! g) = r \<and>
                       \<not> settled (closures ?b1 ! g))"
      by (auto simp: nth_list_update)
  next
    fix g assume "g < length (closures ?b1)" "settled (closures ?b1 ! g)"
    with waitersInv_settled [OF inv, of g] True
    show "resolveCalls (closures ?b1 ! g) = 1 \<and> \<not> timerPending (closures ?b1 ! g)"
      by (auto simp: nth_list_update split: if_splits)
  next
    fix g assume "g < length (closures ?b1)" "\<not> settled (closures ?b1 ! g)"
    with waitersInv_unsettled [OF inv, of g] True
    show "resolveCalls (closures ?b1 ! g) = 0 \<and>
        (g \<in> {fn} \<or>
         (timerPending (closures ?b1 ! g) \<and>
          (\<exists>l. waiters ?b1 (wRunId (closures ?b1 ! g)) = Some l \<and> g \<in> set l)))"
      by (auto simp: nth_list_update split: if_splits)
  qed
  from waitersInv_settle [OF this, of fn] True show ?thesis
    by (simp add: timerFires_def waitersOk_def)
qed

lemma waitersOk_waitForEvents:
  assumes ok: "waitersOk b"
  shows "waitersOk (snd (waitForEvents r b))"
proof -
  let ?n = "length (closures b)"
  let ?old = "case waiters b r of None \<Rightarrow> [] | Some l \<Rightarrow> l"
  let ?b' = "b\<lparr>closures := closures b @
                 [\<lparr>wRunId = r, settled = False, timerPending = True, resolveCalls = 0\<rparr>],
              waiters := (waiters b)(r \<mapsto> ?old @ [?n])\<rparr>"
  from ok have inv: "waitersInv {} b" by (simp add: waitersOk_def)
  have old: "distinct ?old \<and> (\<forall>g \<in> set ?old. g < ?n \<and> wRunId (closures b ! g) = r \<and>
                       \<not> settled (closures b ! g))"
    using waitersInv_lists [OF inv, of r] by (cases "waiters b r") auto
  have "waitersInv {} ?b'"
  proof (rule waitersInvI)
    fix r' l assume w: "waiters ?b' r' = Some l"
    show "l \<noteq> [] \<and> distinct l \<and>
        (\<forall>fn \<in> set l. fn < length (closures ?b') \<and> wRunId (closures ?b' ! fn) = r' \<and>
                       \<not> settled (closures ?b' ! fn))"
    proof (cases "r' = r")
      case True
      with w have "l = ?old @ [?n]" by simp
      with old True show ?thesis by (auto simp: nth_append)
    next
      case False
      with w have "waiters b r' = Some l" by simp
      from waitersInv_lists [OF inv this] show ?thesis by (auto simp: nth_append)
    qed
  next
    fix g assume "g < length (closures ?b')" "settled (closures ?b' ! g)"
    then have "g < ?n \<and> settled (closures b ! g)"
      by (cases "g = ?n") (auto simp: nth_append)
    with waitersInv_settled [OF inv, of g]
    show "resolveCalls (closures ?b' ! g) = 1 \<and> \<not> timerPending (closures ?b' ! g)"
      by (auto simp: nth_append)
  next
    fix g assume g: "g < length (closures ?b')" "\<not> settled (closures ?b' ! g)"
    show "resolveCalls (closures ?b' ! g) = 0 \<and>
        (g \<in> {} \<or>
         (timerPending (closures ?b' ! g) \<and>
          (\<exists>l. waiters ?b' (wRunId (closures ?b' ! g)) = Some l \<and> g \<in> set l)))"
    proof (cases "g = ?n")
      case True
      then show ?thesis by simp
    next
      case False
      with g have g': "g < ?n" "\<not> settled (closures b ! g)" by (auto simp: nth_append)
      from waitersInv_unsettled [OF inv g'] g'(1) show ?thesis
        by (cases "waiters b r") (auto simp: nth_append)
    qed
  qed
  then show ?thesis
    using ok by (simp add: waitForEvents_cases waitersOk_def)
qed

lemma waitersOk_step:
  assumes ok: "waitersOk b"
  shows "waitersOk (step op b)"
proof (cases op)
  case (CreateRun r)
  have "waitersInv {} (createRun r b) = waitersInv {} b"
    by (rule waitersInv_cong) (simp_all add: createRun_def)
  with ok show ?thesis unfolding CreateRun by (simp add: waitersOk_def)
next
  case (AddEvent r e)
  from ok show ?thesis unfolding AddEvent by (simp add: waitersOk_addEvent)
next
  case (WaitForEvents r)
  from ok show ?thesis unfolding WaitForEvents by (simp add: waitersOk_waitForEvents)
next
  case (TimerFires fn)
  from ok show ?thesis unfolding TimerFires by (simp add: waitersOk_timerFires)
next
  case (GetNewEvents r)
  have "waitersInv {} (snd (getNewEvents r b)) = waitersInv {} b"
    by (rule waitersInv_cong) (simp_all add: getNewEvents_def Let_def split: option.splits)
  with ok show ?thesis unfolding GetNewEvents by (simp add: waitersOk_def)
next
  case (SetStatus r st)
  have "waitersInv {} (setStatus r st b) = waitersInv {} b"
    by (rule waitersInv_cong) (simp_all add: setStatus_def split: option.splits)
  with ok show ?thesis unfolding SetStatus by (simp add: waitersOk_def)
qed

lemma waitersOk_exec: "waitersOk b \<Longrightarrow> waitersOk (exec ops b)"
  unfolding exec_def by (induction ops arbitrary: b) (simp_all add: waitersOk_step)

lemma waitersOk_newBuffer: "waitersOk newBuffer"
  by (simp add: waitersOk_def waitersInv_def newBuffer_def)


subsection \<open>What a notification and a timeout do\<close>

lemma length_closures_fold_settle [simp]:
  "length (closures (fold settle l b)) = length (closures b)"
  by (induction l arbitrary: b) simp_all

lemma nth_closures_fold_settle:
  "closures (fold settle l b) ! g =
     (if g \<in> set l \<and> g < length (closures b) \<and> \<not> settled (closures b ! g)
      then wake (closures b ! g) else closures b ! g)"
proof (induction l arbitrary: b)
  case Nil
  show ?case by simp
next
  case (Cons fn l)
  show ?case
    by (auto simp: Cons.IH nth_closures_settle wake_def)
qed

lemma waiters_settle_absent:
  "fn < length (closures b) \<longrightarrow> waiters b (wRunId (closures b ! fn)) = None \<Longrightarrow>
   waiters (settle fn b) = waiters b"
  by (cases "fn < length (closures b) \<and> \<not> settled (closures b ! fn)")
     (auto simp: waiters_settle settle_settled)

lemma waiters_fold_settle_absent:
  "\<forall>fn \<in> set l. fn < length (closures b) \<longrightarrow> waiters b (wRunId (closures b ! fn)) = None \<Longrightarrow>
   waiters (fold settle l b) = waiters b"
proof (induction l arbitrary: b)
  case Nil
  show ?case by simp
next
  case (Cons fn l)
  have w: "waiters (settle fn b) = waiters b"
    using Cons.prems by (intro waiters_settle_absent) simp
  have "\<forall>g \<in> set l. g < length (closures (settle fn b)) \<longrightarrow>
          waiters (settle fn b) (wRunId (closures (settle fn b) ! g)) = None"
    using Cons.prems by (auto simp: w nth_closures_settle wake_def)
  from Cons.IH [OF this] w show ?case by simp
qed

lemma unregistered_loop:
  assumes ok: "waitersOk b" and reg: "waiters b r = Some l"
  shows "waiters (fold settle (take k l) (b\<lparr>waiters := (waiters b)(r := None)\<rparr>)) =
         (waiters b)(r := None)"
proof -
  from ok have inv: "waitersInv {} b" by (simp add: waitersOk_def)
  note l = waitersInv_lists [OF inv reg]
  have "\<forall>fn \<in> set (take k l).
          fn < length (closures (b\<lparr>waiters := (waiters b)(r := None)\<rparr>)) \<longrightarrow>
          waiters (b\<lparr>waiters := (waiters b)(r := None)\<rparr>)
            (wRunId (closures (b\<lparr>waiters := (waiters b)(r := None)\<rparr>) ! fn)) = None"
    using l by (auto dest: in_set_takeD)
  from waiters_fold_settle_absent [OF this] show ?thesis by simp
qed

lemma notifyWaiters_effect:
  assumes ok: "waitersOk b" and reg: "waiters b r = Some l"
  shows "waiters (notifyWaiters r b) = (waiters b)(r := None)"
    and "closures (notifyWaiters r b) ! g =
           (if g \<in> set l then wake (closures b ! g) else closures b ! g)"
proof -
  from ok have inv: "waitersInv {} b" by (simp add: waitersOk_def)
  note l = waitersInv_lists [OF inv reg]
  from unregistered_loop [OF ok reg, of "length l"] reg
  show "waiters (notifyWaiters r b) = (waiters b)(r := None)"
    by (simp add: notifyWaiters_def)
  from l reg show "closures (notifyWaiters r b) ! g =
           (if g \<in> set l then wake (closures b ! g) else closures b ! g)"
    by (auto simp: notifyWaiters_def nth_closures_fold_settle)
qed

lemma closures_addEvent:
  "closures (addEvent r e b) =
     (if runs b r \<noteq> None \<and> (interesting e \<or> etype e = ''cancelled'')
      then closures (notifyWaiters r b) else closures b)"
  by (simp add: addEvent_cases split: option.splits)

lemma waiters_addEvent:
  "waiters (addEvent r e b) =
     (if runs b r \<noteq> None \<and> (interesting e \<or> etype e = ''cancelled'')
      then waiters (notifyWaiters r b) else waiters b)"
  by (simp add: addEvent_cases split: option.splits)

lemma closures_notifyWaiters_settled:
  "fn < length (closures b) \<Longrightarrow> settled (closures b ! fn) \<Longrightarrow>
   closures (notifyWaiters r b) ! fn = closures b ! fn"
  by (simp add: notifyWaiters_def nth_closures_fold_settle split: option.splits)

lemma closures_step_settled:
  assumes ok: "waitersOk b" and fn: "fn < length (closures b)" "settled (closures b ! fn)"
  shows "closures (step op b) ! fn = closures b ! fn"
proof (cases op)
  case (CreateRun r)
  then show ?thesis by (simp add: createRun_def)
next
  case (AddEvent r e)
  with fn show ?thesis by (simp add: closures_addEvent closures_notifyWaiters_settled)
next
  case (WaitForEvents r)
  with fn show ?thesis by (simp add: waitForEvents_cases nth_append)
next
  case (TimerFires g)
  from ok have inv: "waitersInv {} b" by (simp add: waitersOk_def)
  from waitersInv_settled [OF inv fn] have np: "\<not> timerPending (closures b ! fn)" by simp
  show ?thesis
  proof (cases "g = fn")
    case True
    with np TimerFires show ?thesis by (simp add: timerFires_def)
  next
    case False
    with TimerFires fn show ?thesis
      by (simp add: timerFires_def nth_closures_settle)
  qed
next
  case (GetNewEvents r)
  then show ?thesis by (simp add: getNewEvents_def Let_def split: option.splits)
next
  case (SetStatus r st)
  then show ?thesis by (simp add: setStatus_def split: option.splits)
qed

lemma timerFires_effect:
  assumes ok: "waitersOk b" and fn: "fn < length (closures b)" "\<not> settled (closures b ! fn)"
  shows "timerPending (closures b ! fn)"
    and "closures (timerFires fn b) ! fn =
           (closures b ! fn)\<lparr>settled := True, timerPending := False, resolveCalls := 1\<rparr>"
    and "waiters (timerFires fn b) r = Some l \<Longrightarrow> fn \<notin> set l"
proof -
  from ok have inv: "waitersInv {} b" by (simp add: waitersOk_def)
  from waitersInv_unsettled [OF inv fn]
  have tp: "timerPending (closures b ! fn)" and r0: "resolveCalls (closures b ! fn) = 0"
    by auto
  show "timerPending (closures b ! fn)" by (rule tp)
  from tp r0 fn show cl: "closures (timerFires fn b) ! fn =
           (closures b ! fn)\<lparr>settled := True, timerPending := False, resolveCalls := 1\<rparr>"
    by (simp add: timerFires_def nth_closures_settle wake_def)
  assume reg: "waiters (timerFires fn b) r = Some l"
  from waitersOk_timerFires [OF ok, of fn] have "waitersInv {} (timerFires fn b)"
    by (simp add: waitersOk_def)
  from waitersInv_lists [OF this reg] cl show "fn \<notin> set l" by auto
qed


lemma waitersOk_resolved_once:
  assumes ok: "waitersOk b" and fn: "fn < length (closures b)"
  shows "resolveCalls (closures b ! fn) \<le> 1 \<and>
         (settled (closures b ! fn) \<longleftrightarrow> resolveCalls (closures b ! fn) = 1)"
proof -
  from ok have inv: "waitersInv {} b" by (simp add: waitersOk_def)
  show ?thesis
    using waitersInv_settled [OF inv fn] waitersInv_unsettled [OF inv fn]
    by (cases "settled (closures b ! fn)") auto
qed

lemma notification_effect:
  assumes ok: "waitersOk b" and run: "runs b r \<noteq> None"
    and ev: "interesting e \<or> etype e = ''cancelled''" and reg: "waiters b r = Some l"
  shows "waiters (addEvent r e b) r = None"
    and "fn \<in> set l \<Longrightarrow> resolveCalls (closures b ! fn) = 0 \<and>
           closures (addEvent r e b) ! fn =
             (closures b ! fn)\<lparr>settled := True, timerPending := False, resolveCalls := 1\<rparr>"
    and "fn \<notin> set l \<Longrightarrow> closures (addEvent r e b) ! fn = closures b ! fn"
proof -
  from ok have inv: "waitersInv {} b" by (simp add: waitersOk_def)
  note eff = notifyWaiters_effect [OF ok reg]
  from run ev eff(1) show "waiters (addEvent r e b) r = None"
    by (simp add: waiters_addEvent)
  from run ev have cl: "closures (addEvent r e b) = closures (notifyWaiters r b)"
    by (simp add: closures_addEvent)
  show "closures (addEvent r e b) ! fn = closures b ! fn" if "fn \<notin> set l"
    using that by (simp add: cl eff(2))
  show "resolveCalls (closures b ! fn) = 0 \<and>
           closures (addEvent r e b) ! fn =
             (closures b ! fn)\<lparr>settled := True, timerPending := False, resolveCalls := 1\<rparr>"
    if mem: "fn \<in> set l"
  proof -
    from waitersInv_lists [OF inv reg] mem
    have "fn < length (closures b)" "\<not> settled (closures b ! fn)" by auto
    from waitersInv_unsettled [OF inv this] have "resolveCalls (closures b ! fn) = 0" by simp
    with mem show ?thesis by (simp add: cl eff(2) wake_def)
  qed
qed

lemma reentrant_notify:
  assumes ok: "waitersOk b" and reg: "waiters b r = Some l"
  shows "notifyWaiters r b = fold settle l (b\<lparr>waiters := (waiters b)(r := None)\<rparr>)"
    and "waiters (fold settle (take k l) (b\<lparr>waiters := (waiters b)(r := None)\<rparr>)) r = None"
    and "notifyWaiters r (fold settle (take k l) (b\<lparr>waiters := (waiters b)(r := None)\<rparr>)) =
           fold settle (take k l) (b\<lparr>waiters := (waiters b)(r := None)\<rparr>)"
proof -
  show "notifyWaiters r b = fold settle l (b\<lparr>waiters := (waiters b)(r := None)\<rparr>)"
    using reg by (simp add: notifyWaiters_def)
  show none: "waiters (fold settle (take k l) (b\<lparr>waiters := (waiters b)(r := None)\<rparr>)) r = None"
    by (simp add: unregistered_loop [OF ok reg])
  then show "notifyWaiters r (fold settle (take k l) (b\<lparr>waiters := (waiters b)(r := None)\<rparr>)) =
           fold settle (take k l) (b\<lparr>waiters := (waiters b)(r := None)\<rparr>)"
    by (simp add: notifyWaiters_def)
qed

lemma settled_is_final:
  assumes ok: "waitersOk b" and fn: "fn < length (closures b)" "settled (closures b ! fn)"
  shows "\<not> timerPending (closures b ! fn)"
    and "waiters b r = Some l \<Longrightarrow> fn \<notin> set l"
proof -
  from ok have inv: "waitersInv {} b" by (simp add: waitersOk_def)
  from waitersInv_settled [OF inv fn] show "\<not> timerPending (closures b ! fn)" by simp
  assume "waiters b r = Some l"
  from waitersInv_lists [OF inv this] fn(2) show "fn \<notin> set l" by auto
qed

text \<open>
  C3. In every state the buffer can reach (the invariant holds for the new buffer and
  after every history), a closure has called \<open>resolve\<close> at most once, and exactly once
  when it is settled. When \<open>addEvent\<close> appends an interesting event or the cancellation
  signal to an existing run, the registration of the run id is gone afterwards, every
  closure that was registered goes from zero to one call of \<open>resolve\<close> with its timer
  cleared, and no other closure changes. \<open>notifyWaiters\<close> deletes the registration
  before it calls the first closure: at every point of its loop the run id has no
  registration, and a notification for the same id there does nothing. A timer that
  fires on an unsettled closure settles it once and deregisters it. A settled closure
  has no pending timer, is in no registration list, and no operation changes it again:
  of notification and timeout exactly one takes effect.
\<close>

theorem C3_every_waiter_settles_once:
  assumes ok: "waitersOk b"
  shows "waitersOk (exec ops b) \<and>
    (\<forall>fn < length (closures b).
       resolveCalls (closures b ! fn) \<le> 1 \<and>
       (settled (closures b ! fn) \<longleftrightarrow> resolveCalls (closures b ! fn) = 1)) \<and>
    (\<forall>r e l. runs b r \<noteq> None \<and> (interesting e \<or> etype e = ''cancelled'') \<and>
         waiters b r = Some l \<longrightarrow>
       waiters (addEvent r e b) r = None \<and>
       (\<forall>fn \<in> set l.
          resolveCalls (closures b ! fn) = 0 \<and>
          closures (addEvent r e b) ! fn =
            (closures b ! fn)\<lparr>settled := True, timerPending := False, resolveCalls := 1\<rparr>) \<and>
       (\<forall>fn. fn \<notin> set l \<longrightarrow> closures (addEvent r e b) ! fn = closures b ! fn)) \<and>
    (\<forall>r l k. waiters b r = Some l \<longrightarrow>
       notifyWaiters r b = fold settle l (b\<lparr>waiters := (waiters b)(r := None)\<rparr>) \<and>
       waiters (fold settle (take k l) (b\<lparr>waiters := (waiters b)(r := None)\<rparr>)) r = None \<and>
       notifyWaiters r (fold settle (take k l) (b\<lparr>waiters := (waiters b)(r := None)\<rparr>)) =
         fold settle (take k l) (b\<lparr>waiters := (waiters b)(r := None)\<rparr>)) \<and>
    (\<forall>fn < length (closures b). \<not> settled (closures b ! fn) \<longrightarrow>
       timerPending (closures b ! fn) \<and>
       closures (timerFires fn b) ! fn =
         (closures b ! fn)\<lparr>settled := True, timerPending := False, resolveCalls := 1\<rparr> \<and>
       (\<forall>r l. waiters (timerFires fn b) r = Some l \<longrightarrow> fn \<notin> set l)) \<and>
    (\<forall>fn < length (closures b). settled (closures b ! fn) \<longrightarrow>
       \<not> timerPending (closures b ! fn) \<and>
       (\<forall>r l. waiters b r = Some l \<longrightarrow> fn \<notin> set l) \<and>
       (\<forall>op. closures (step op b) ! fn = closures b ! fn))"
proof (intro conjI)
  show "waitersOk (exec ops b)" using ok by (rule waitersOk_exec)
next
  show "\<forall>fn < length (closures b).
       resolveCalls (closures b ! fn) \<le> 1 \<and>
       (settled (closures b ! fn) \<longleftrightarrow> resolveCalls (closures b ! fn) = 1)"
    using waitersOk_resolved_once [OF ok] by blast
next
  show "\<forall>r e l. runs b r \<noteq> None \<and> (interesting e \<or> etype e = ''cancelled'') \<and>
         waiters b r = Some l \<longrightarrow>
       waiters (addEvent r e b) r = None \<and>
       (\<forall>fn \<in> set l.
          resolveCalls (closures b ! fn) = 0 \<and>
          closures (addEvent r e b) ! fn =
            (closures b ! fn)\<lparr>settled := True, timerPending := False, resolveCalls := 1\<rparr>) \<and>
       (\<forall>fn. fn \<notin> set l \<longrightarrow> closures (addEvent r e b) ! fn = closures b ! fn)"
    using notification_effect [OF ok] by blast
next
  show "\<forall>r l k. waiters b r = Some l \<longrightarrow>
       notifyWaiters r b = fold settle l (b\<lparr>waiters := (waiters b)(r := None)\<rparr>) \<and>
       waiters (fold settle (take k l) (b\<lparr>waiters := (waiters b)(r := None)\<rparr>)) r = None \<and>
       notifyWaiters r (fold settle (take k l) (b\<lparr>waiters := (waiters b)(r := None)\<rparr>)) =
         fold settle (take k l) (b\<lparr>waiters := (waiters b)(r := None)\<rparr>)"
    using reentrant_notify [OF ok] by blast
next
  show "\<forall>fn < length (closures b). \<not> settled (closures b ! fn) \<longrightarrow>
       timerPending (closures b ! fn) \<and>
       closures (timerFires fn b) ! fn =
         (closures b ! fn)\<lparr>settled := True, timerPending := False, resolveCalls := 1\<rparr> \<and>
       (\<forall>r l. waiters (timerFires fn b) r = Some l \<longrightarrow> fn \<notin> set l)"
    using timerFires_effect [OF ok] by blast
next
  show "\<forall>fn < length (closures b). settled (closures b ! fn) \<longrightarrow>
       \<not> timerPending (closures b ! fn) \<and>
       (\<forall>r l. waiters b r = Some l \<longrightarrow> fn \<notin> set l) \<and>
       (\<forall>op. closures (step op b) ! fn = closures b ! fn)"
    using settled_is_final [OF ok] closures_step_settled [OF ok] by blast
qed


theorem C3_every_waiter_settles_once_witness:
  "waitersOk newBuffer \<and>
   waiters (exec [CreateRun ''R1'', WaitForEvents ''R1'', WaitForEvents ''R1''] newBuffer) ''R1'' = Some [0, 1] \<and>
   map resolveCalls (closures (exec [CreateRun ''R1'', WaitForEvents ''R1'', WaitForEvents ''R1''] newBuffer)) = [0, 0] \<and>
   waiters (addEvent ''R1'' \<lparr>etype = ''agent_response'', props = []\<rparr> (exec [CreateRun ''R1'', WaitForEvents ''R1'', WaitForEvents ''R1''] newBuffer)) ''R1'' = None \<and>
   resolveCalls (closures (addEvent ''R1'' \<lparr>etype = ''agent_response'', props = []\<rparr> (exec [CreateRun ''R1'', WaitForEvents ''R1'', WaitForEvents ''R1''] newBuffer)) ! 0) = 1 \<and>
   resolveCalls (closures (addEvent ''R1'' \<lparr>etype = ''agent_response'', props = []\<rparr> (exec [CreateRun ''R1'', WaitForEvents ''R1'', WaitForEvents ''R1''] newBuffer)) ! 1) = 1 \<and>
   \<not> timerPending (closures (addEvent ''R1'' \<lparr>etype = ''agent_response'', props = []\<rparr> (exec [CreateRun ''R1'', WaitForEvents ''R1'', WaitForEvents ''R1''] newBuffer)) ! 0) \<and>
   resolveCalls (closures (timerFires 0 (exec [CreateRun ''R1'', WaitForEvents ''R1'', WaitForEvents ''R1''] newBuffer)) ! 0) = 1 \<and>
   waiters (timerFires 0 (exec [CreateRun ''R1'', WaitForEvents ''R1'', WaitForEvents ''R1''] newBuffer)) ''R1'' = Some [1]"
proof -
  have b0: "(exec [CreateRun ''R1'', WaitForEvents ''R1'', WaitForEvents ''R1''] newBuffer) =
      \<lparr>runs = [''R1'' \<mapsto> freshRun], waiters = [''R1'' \<mapsto> [0, 1]],
       closures = [\<lparr>wRunId = ''R1'', settled = False, timerPending = True, resolveCalls = 0\<rparr>,
                   \<lparr>wRunId = ''R1'', settled = False, timerPending = True, resolveCalls = 0\<rparr>]\<rparr>"
    by (simp add: exec_def waitForEvents_def createRun_def newBuffer_def freshRun_def Let_def)
  have ok0: "waitersOk newBuffer" by (rule waitersOk_newBuffer)
  from C3_every_waiter_settles_once [OF ok0,
      of "[CreateRun ''R1'', WaitForEvents ''R1'', WaitForEvents ''R1'']"]
  have ok: "waitersOk (exec [CreateRun ''R1'', WaitForEvents ''R1'', WaitForEvents ''R1''] newBuffer)" by blast
  note facts = C3_every_waiter_settles_once [OF ok, of "[]"]
  have w: "waiters (exec [CreateRun ''R1'', WaitForEvents ''R1'', WaitForEvents ''R1''] newBuffer) ''R1'' = Some [0, 1]" and r: "runs (exec [CreateRun ''R1'', WaitForEvents ''R1'', WaitForEvents ''R1''] newBuffer) ''R1'' \<noteq> None"
    and c: "map resolveCalls (closures (exec [CreateRun ''R1'', WaitForEvents ''R1'', WaitForEvents ''R1''] newBuffer)) = [0, 0]"
    and len: "0 < length (closures (exec [CreateRun ''R1'', WaitForEvents ''R1'', WaitForEvents ''R1''] newBuffer))" "\<not> settled (closures (exec [CreateRun ''R1'', WaitForEvents ''R1'', WaitForEvents ''R1''] newBuffer) ! 0)"
    by (simp_all add: b0)
  have iv: "interesting \<lparr>etype = ''agent_response'', props = []\<rparr>" by (simp add: interesting_iff)
  from facts r iv w have n:
    "waiters (addEvent ''R1'' \<lparr>etype = ''agent_response'', props = []\<rparr> (exec [CreateRun ''R1'', WaitForEvents ''R1'', WaitForEvents ''R1''] newBuffer)) ''R1'' = None \<and>
     (\<forall>fn \<in> set [0, 1].
        closures (addEvent ''R1'' \<lparr>etype = ''agent_response'', props = []\<rparr> (exec [CreateRun ''R1'', WaitForEvents ''R1'', WaitForEvents ''R1''] newBuffer)) ! fn =
          (closures (exec [CreateRun ''R1'', WaitForEvents ''R1'', WaitForEvents ''R1''] newBuffer) ! fn)\<lparr>settled := True, timerPending := False, resolveCalls := 1\<rparr>)"
    by blast
  from facts len have t:
    "closures (timerFires 0 (exec [CreateRun ''R1'', WaitForEvents ''R1'', WaitForEvents ''R1''] newBuffer)) ! 0 =
       (closures (exec [CreateRun ''R1'', WaitForEvents ''R1'', WaitForEvents ''R1''] newBuffer) ! 0)\<lparr>settled := True, timerPending := False, resolveCalls := 1\<rparr>"
    by blast
  have tw: "waiters (timerFires 0 (exec [CreateRun ''R1'', WaitForEvents ''R1'', WaitForEvents ''R1''] newBuffer)) ''R1'' = Some [1]"
    by (simp add: b0 timerFires_def settle_def removeWaiter_def Let_def)
  from ok0 w c n t tw show ?thesis by simp
qed

section \<open>The cancellation signal\<close>

lemma filter_drop_snoc:
  "\<not> P e \<Longrightarrow> filter P (drop c (xs @ [e])) = filter P (drop c xs)"
  by (cases "c - length xs") simp_all

text \<open>
  C9. An event of type \<open>cancelled\<close> is not interesting. Ingested for an existing run, it
  sets the status to \<open>canceled\<close>, is appended to the log, and wakes every waiter
  registered for the run (each goes from zero to one call of \<open>resolve\<close>; the
  registration is gone). The poll that follows reports \<open>canceled\<close> and returns the
  interesting events that were pending, without the cancellation event; no
  \<open>getNewEvents\<close> result ever holds an event of type \<open>cancelled\<close>.
\<close>

theorem C9_cancelled_wakes_but_is_not_delivered:
  assumes ok: "waitersOk b" and run: "runs b r = Some run" and ty: "etype e = ''cancelled''"
  shows "\<not> interesting e \<and>
    (\<exists>run'. runs (addEvent r e b) r = Some run' \<and> status run' = Canceled \<and>
       events run' = events run @ [e]) \<and>
    waiters (addEvent r e b) r = None \<and>
    (\<forall>l. waiters b r = Some l \<longrightarrow>
       (\<forall>fn \<in> set l.
          resolveCalls (closures b ! fn) = 0 \<and>
          settled (closures (addEvent r e b) ! fn) \<and>
          resolveCalls (closures (addEvent r e b) ! fn) = 1)) \<and>
    (\<exists>p. fst (getNewEvents r (addEvent r e b)) = Some p \<and> pStatus p = Canceled \<and>
       e \<notin> set (newEvents p) \<and>
       newEvents p = filter interesting (drop (lastPollIndex run) (events run))) \<and>
    (\<forall>b' r' p. fst (getNewEvents r' b') = Some p \<longrightarrow>
       (\<forall>x \<in> set (newEvents p). etype x \<noteq> ''cancelled''))"
proof (intro conjI)
  show ni: "\<not> interesting e" using ty by (simp add: interesting_iff)
  let ?run' = "addEvent_switch e (run\<lparr>events := events run @ [e]\<rparr>)"
  have r': "runs (addEvent r e b) r = Some ?run'" using run by (rule addEvent_run)
  have st: "status ?run' = Canceled" using ty by (simp add: switch_status)
  from r' st show "\<exists>run'. runs (addEvent r e b) r = Some run' \<and> status run' = Canceled \<and>
       events run' = events run @ [e]"
    by simp
  from run have ex: "runs b r \<noteq> None" by simp
  from ty have ev: "interesting e \<or> etype e = ''cancelled''" by simp
  show "waiters (addEvent r e b) r = None"
  proof (cases "waiters b r")
    case None
    with ex ev show ?thesis by (simp add: waiters_addEvent notifyWaiters_def)
  next
    case (Some l)
    from notification_effect(1) [OF ok ex ev Some] show ?thesis .
  qed
  show "\<forall>l. waiters b r = Some l \<longrightarrow>
       (\<forall>fn \<in> set l.
          resolveCalls (closures b ! fn) = 0 \<and>
          settled (closures (addEvent r e b) ! fn) \<and>
          resolveCalls (closures (addEvent r e b) ! fn) = 1)"
  proof (intro allI impI ballI)
    fix l fn assume reg: "waiters b r = Some l" and mem: "fn \<in> set l"
    from notification_effect(2) [OF ok ex ev reg mem]
    show "resolveCalls (closures b ! fn) = 0 \<and>
          settled (closures (addEvent r e b) ! fn) \<and>
          resolveCalls (closures (addEvent r e b) ! fn) = 1"
      by simp
  qed
  have ne: "filter interesting (drop (lastPollIndex run) (events run @ [e])) =
            filter interesting (drop (lastPollIndex run) (events run))"
    using ni by (rule filter_drop_snoc)
  show "\<exists>p. fst (getNewEvents r (addEvent r e b)) = Some p \<and> pStatus p = Canceled \<and>
       e \<notin> set (newEvents p) \<and>
       newEvents p = filter interesting (drop (lastPollIndex run) (events run))"
    unfolding poll_effect [OF r'] using st ni ne by simp
  show "\<forall>b' r' p. fst (getNewEvents r' b') = Some p \<longrightarrow>
       (\<forall>x \<in> set (newEvents p). etype x \<noteq> ''cancelled'')"
    by (auto simp: getNewEvents_def Let_def interesting_iff split: option.splits)
qed

theorem C9_cancelled_wakes_but_is_not_delivered_witness:
  "waitersOk (snd (waitForEvents ''R1'' (createRun ''R1'' newBuffer))) \<and>
   waiters (snd (waitForEvents ''R1'' (createRun ''R1'' newBuffer))) ''R1'' = Some [0] \<and>
   map_option status (runs (addEvent ''R1'' \<lparr>etype = ''cancelled'', props = []\<rparr>
       (snd (waitForEvents ''R1'' (createRun ''R1'' newBuffer)))) ''R1'') = Some Canceled \<and>
   resolveCalls (closures (addEvent ''R1'' \<lparr>etype = ''cancelled'', props = []\<rparr>
       (snd (waitForEvents ''R1'' (createRun ''R1'' newBuffer)))) ! 0) = 1 \<and>
   map_option newEvents (fst (getNewEvents ''R1''
       (addEvent ''R1'' \<lparr>etype = ''cancelled'', props = []\<rparr>
         (snd (waitForEvents ''R1'' (createRun ''R1'' newBuffer)))))) = Some []"
proof -
  let ?b = "snd (waitForEvents ''R1'' (createRun ''R1'' newBuffer))"
  let ?e = "\<lparr>etype = ''cancelled'', props = []\<rparr>"
  have "waitersOk (step (WaitForEvents ''R1'') (step (CreateRun ''R1'') newBuffer))"
    by (intro waitersOk_step waitersOk_newBuffer)
  then have ok: "waitersOk ?b" by simp
  have run: "runs ?b ''R1'' = Some freshRun"
    by (simp add: runs_waitForEvents runs_createRun)
  have ty: "etype ?e = ''cancelled''" by simp
  have w: "waiters ?b ''R1'' = Some [0]"
    by (simp add: waitForEvents_def createRun_def newBuffer_def freshRun_def Let_def)
  note facts = C9_cancelled_wakes_but_is_not_delivered [OF ok run ty]
  from facts obtain run' where
    "runs (addEvent ''R1'' ?e ?b) ''R1'' = Some run'" "status run' = Canceled"
    by blast
  then have s: "map_option status (runs (addEvent ''R1'' ?e ?b) ''R1'') = Some Canceled"
    by simp
  from facts w have c: "resolveCalls (closures (addEvent ''R1'' ?e ?b) ! 0) = 1"
    by simp
  from facts obtain p where
    "fst (getNewEvents ''R1'' (addEvent ''R1'' ?e ?b)) = Some p"
    "newEvents p = filter interesting (drop (lastPollIndex freshRun) (events freshRun))"
    by blast
  then have n: "map_option newEvents (fst (getNewEvents ''R1'' (addEvent ''R1'' ?e ?b))) = Some []"
    by (simp add: freshRun_def)
  from ok w s c n show ?thesis by simp
qed


section \<open>Publish data: results\<close>

subsection \<open>Stripping the reasoning trace\<close>

lemma tag_units:
  "openTag = [60, 116, 104, 105, 110, 107, 62]"
  "closeTag = [60, 47, 116, 104, 105, 110, 107, 62]"
  by (simp_all add: openTag_def closeTag_def units_def)

lemma findClose_None_iff: "findClose s = None \<longleftrightarrow> \<not> occursIn closeTag s"
  by (induction s) (auto simp: tag_units)

lemma open_tag_nth: "0 < k \<Longrightarrow> k < length openTag \<Longrightarrow> openTag ! k \<noteq> 60"
  by (auto simp: tag_units nth_Cons split: nat.splits)

lemma close_tag_nth: "0 < k \<Longrightarrow> k < length closeTag \<Longrightarrow> closeTag ! k \<noteq> 60"
  by (auto simp: tag_units nth_Cons split: nat.splits)

lemma no_straddle:
  assumes st: "startsWith tag (xs @ tag @ ys)"
    and xs: "xs \<noteq> []" "length xs < length tag"
    and hd: "tag ! 0 = 60"
    and others: "\<And>k. 0 < k \<Longrightarrow> k < length tag \<Longrightarrow> tag ! k \<noteq> 60"
  shows False
proof -
  let ?k = "length xs"
  from st have eq: "take (length tag) (xs @ tag @ ys) = tag" by (simp only: startsWith_def)
  have "take (length tag) (xs @ tag @ ys) ! ?k = (xs @ tag @ ys) ! ?k"
    using xs(2) by (rule nth_take)
  also have "\<dots> = (tag @ ys) ! 0" by (simp add: nth_append)
  also have "\<dots> = tag ! 0"
  proof -
    have "0 < length tag" using xs(2) by linarith
    then show ?thesis by (simp add: nth_append)
  qed
  finally have "tag ! ?k = 60" unfolding eq using hd by simp
  moreover have "0 < ?k" using xs(1) by simp
  ultimately show False using others [of ?k] xs(2) by simp
qed

lemma startsWith_append:
  "length tag \<le> length xs \<Longrightarrow> startsWith tag (xs @ ys) = startsWith tag xs"
  by (simp add: startsWith_def)

lemma open_not_in_prefix:
  assumes "\<not> occursIn openTag (c # ps)"
  shows "\<not> startsWith openTag ((c # ps) @ openTag @ ys)"
proof
  assume st: "startsWith openTag ((c # ps) @ openTag @ ys)"
  show False
  proof (cases "length (c # ps) < length openTag")
    case True
    show False
    proof (rule no_straddle [OF st _ True])
      show "c # ps \<noteq> []" by simp
      show "openTag ! 0 = 60" by (simp add: tag_units)
      fix k assume "0 < k" "k < length openTag"
      then show "openTag ! k \<noteq> 60" by (rule open_tag_nth)
    qed
  next
    case False
    then have "length openTag \<le> length (c # ps)" by simp
    from startsWith_append [OF this] st have "startsWith openTag (c # ps)" by blast
    with assms show False by simp
  qed
qed

lemma close_not_in_prefix:
  assumes "\<not> occursIn closeTag (c # ps)"
  shows "\<not> startsWith closeTag ((c # ps) @ closeTag @ ys)"
proof
  assume st: "startsWith closeTag ((c # ps) @ closeTag @ ys)"
  show False
  proof (cases "length (c # ps) < length closeTag")
    case True
    show False
    proof (rule no_straddle [OF st _ True])
      show "c # ps \<noteq> []" by simp
      show "closeTag ! 0 = 60" by (simp add: tag_units)
      fix k assume "0 < k" "k < length closeTag"
      then show "closeTag ! k \<noteq> 60" by (rule close_tag_nth)
    qed
  next
    case False
    then have "length closeTag \<le> length (c # ps)" by simp
    from startsWith_append [OF this] st have "startsWith closeTag (c # ps)" by blast
    with assms show False by simp
  qed
qed

lemma findClose_first:
  "\<not> occursIn closeTag body \<Longrightarrow> findClose (body @ closeTag @ post) = Some post"
proof (induction body)
  case Nil
  show ?case by (simp add: startsWith_def tag_units)
next
  case (Cons c bs)
  from Cons.prems have rest: "\<not> occursIn closeTag bs" by simp
  have "findClose ((c # bs) @ closeTag @ post) =
        (if startsWith closeTag ((c # bs) @ closeTag @ post)
         then Some (drop 8 ((c # bs) @ closeTag @ post))
         else findClose (bs @ closeTag @ post))"
    by (simp only: append_Cons findClose.simps)
  also have "\<dots> = findClose (bs @ closeTag @ post)"
    using close_not_in_prefix [OF Cons.prems, of post] by (simp only: if_False)
  finally show ?case using Cons.IH [OF rest] by simp
qed

lemma replaceThink_block:
  assumes pre: "\<not> occursIn openTag pre" and body: "\<not> occursIn closeTag body"
  shows "replaceThink (pre @ openTag @ body @ closeTag @ post) = pre @ replaceThink post"
  using pre
proof (induction pre)
  case Nil
  from findClose_first [OF body, of post] show ?case
    by (simp add: startsWith_def tag_units(1))
next
  case (Cons c ps)
  let ?rest = "openTag @ body @ closeTag @ post"
  from Cons.prems have rest: "\<not> occursIn openTag ps" by simp
  have "replaceThink ((c # ps) @ ?rest) =
        (if startsWith openTag ((c # ps) @ ?rest) then
           (case findClose (drop 7 ((c # ps) @ ?rest)) of
              Some r \<Rightarrow> replaceThink r
            | None \<Rightarrow> c # replaceThink (ps @ ?rest))
         else c # replaceThink (ps @ ?rest))"
    by (simp only: append_Cons replaceThink.simps)
  also have "\<dots> = c # replaceThink (ps @ ?rest)"
    using open_not_in_prefix [OF Cons.prems, of "body @ closeTag @ post"]
    by (simp only: if_False)
  finally show ?case using Cons.IH [OF rest] by simp
qed

lemma replaceThink_no_open: "\<not> occursIn openTag s \<Longrightarrow> replaceThink s = s"
  by (induction s) auto

lemma occursIn_drop: "occursIn tag (drop n xs) \<Longrightarrow> tag \<noteq> [] \<Longrightarrow> occursIn tag xs"
proof (induction xs arbitrary: n)
  case Nil
  then show ?case by simp
next
  case (Cons x xs)
  then show ?case by (cases n) auto
qed

lemma replaceThink_no_close: "\<not> occursIn closeTag s \<Longrightarrow> replaceThink s = s"
proof (induction s rule: replaceThink.induct)
  case 1
  show ?case by simp
next
  case (2 c cs)
  from "2.prems" have rest: "\<not> occursIn closeTag cs" by simp
  have "closeTag \<noteq> []" by (simp add: tag_units)
  with occursIn_drop [of "closeTag" 7 "c # cs"] "2.prems"
  have "\<not> occursIn closeTag (drop 7 (c # cs))" by blast
  then have none: "findClose (drop 7 (c # cs)) = None"
    using findClose_None_iff [of "drop 7 (c # cs)"] by blast
  show ?case
  proof (cases "startsWith openTag (c # cs)")
    case True
    from "2.IH"(1) [OF True none rest] have "replaceThink cs = cs" .
    with True none show ?thesis by (simp only: replaceThink.simps if_True option.case)
  next
    case False
    from "2.IH"(3) [OF False rest] have "replaceThink cs = cs" .
    with False show ?thesis by (simp only: replaceThink.simps if_False)
  qed
qed


subsection \<open>Flattening the responses\<close>

lemma collect_ok:
  "(\<And>x. x \<in> set xs \<Longrightarrow> f x = Inr (g x)) \<Longrightarrow> collect f xs = Inr (concat (map g xs))"
  by (induction xs) simp_all

lemma iterate_objectArray:
  "objectArray v \<Longrightarrow> iterate (orElse v (JArr [])) = Inr (elements v)"
  by (cases v) (auto simp: objectArray_def orElse_def elements_def)

lemma objectArray_elements:
  "objectArray v \<Longrightarrow> x \<in> set (elements v) \<Longrightarrow> isObject x"
  by (cases v) (auto simp: objectArray_def elements_def list_all_iff)

lemma responseOf_entry:
  assumes "isObject r" "textOrAbsent (propOf r ''message'')"
  shows "responseOf (orElse (propOf node ''round'') (JNum 1)) r = Inr (entry node r)"
proof -
  from assms(1) have nn: "r \<noteq> JUndefined" "r \<noteq> JNull"
    by (auto simp: isObject_def)
  from assms(2) show ?thesis
    by (cases "propOf r ''message''")
       (simp_all add: responseOf_def nn entry_def orElse_def textOrAbsent_def)
qed

lemma nodeResponses_ok:
  assumes "isObject node" "objectArray (propOf node ''responses'')"
    and "list_all (\<lambda>r. textOrAbsent (propOf r ''message'')) (elements (propOf node ''responses''))"
  shows "nodeResponses node = Inr (map (entry node) (elements (propOf node ''responses'')))"
proof -
  from assms(1) have nn: "node \<noteq> JUndefined" "node \<noteq> JNull"
    by (auto simp: isObject_def)
  have "collect (\<lambda>r. case responseOf (orElse (propOf node ''round'') (JNum 1)) r of
                        Inl e \<Rightarrow> Inl e | Inr x \<Rightarrow> Inr [x])
          (elements (propOf node ''responses'')) =
        Inr (concat (map (\<lambda>r. [entry node r]) (elements (propOf node ''responses''))))"
  proof (rule collect_ok)
    fix r assume r: "r \<in> set (elements (propOf node ''responses''))"
    with assms(3) have "textOrAbsent (propOf r ''message'')" by (simp add: list_all_iff)
    with objectArray_elements [OF assms(2) r]
    show "(case responseOf (orElse (propOf node ''round'') (JNum 1)) r of
             Inl e \<Rightarrow> Inl e | Inr x \<Rightarrow> Inr [x]) = Inr [entry node r]"
      by (simp add: responseOf_entry)
  qed
  moreover have "concat (map (\<lambda>r. [entry node r]) xs) = map (entry node) xs" for xs
    by (induction xs) simp_all
  ultimately show ?thesis
    by (simp add: nodeResponses_def nn Let_def iterate_objectArray [OF assms(2)])
qed

lemma roundResponses_ok:
  assumes "isObject rnd" "objectArray (propOf rnd ''node_results'')"
    and "list_all (\<lambda>node.
            objectArray (propOf node ''responses'') \<and>
            list_all (\<lambda>r. textOrAbsent (propOf r ''message''))
              (elements (propOf node ''responses'')))
          (elements (propOf rnd ''node_results''))"
  shows "roundResponses rnd =
         Inr (concat (map (\<lambda>node. map (entry node) (elements (propOf node ''responses'')))
                (elements (propOf rnd ''node_results''))))"
proof -
  from assms(1) have nn: "rnd \<noteq> JUndefined" "rnd \<noteq> JNull"
    by (auto simp: isObject_def)
  have "collect nodeResponses (elements (propOf rnd ''node_results'')) =
        Inr (concat (map (\<lambda>node. map (entry node) (elements (propOf node ''responses'')))
               (elements (propOf rnd ''node_results''))))"
  proof (rule collect_ok)
    fix node assume n: "node \<in> set (elements (propOf rnd ''node_results''))"
    with assms(3) have "objectArray (propOf node ''responses'')"
      "list_all (\<lambda>r. textOrAbsent (propOf r ''message'')) (elements (propOf node ''responses''))"
      by (simp_all add: list_all_iff)
    with objectArray_elements [OF assms(2) n]
    show "nodeResponses node = Inr (map (entry node) (elements (propOf node ''responses'')))"
      by (rule nodeResponses_ok)
  qed
  then show ?thesis
    by (simp add: roundResponses_def nn iterate_objectArray [OF assms(2)])
qed

lemma collect_rounds:
  assumes "nestedAsExpected conv"
  shows "iterate (orElse (propOf conv ''round_results'') (JArr [])) =
           Inr (elements (propOf conv ''round_results''))"
    and "collect roundResponses (elements (propOf conv ''round_results'')) = Inr (flattened conv)"
proof -
  from assms have oa: "objectArray (propOf conv ''round_results'')"
    by (simp add: nestedAsExpected_def)
  from oa show "iterate (orElse (propOf conv ''round_results'') (JArr [])) =
           Inr (elements (propOf conv ''round_results''))"
    by (rule iterate_objectArray)
  show "collect roundResponses (elements (propOf conv ''round_results'')) = Inr (flattened conv)"
    unfolding flattened_def
  proof (rule collect_ok)
    fix rnd assume r: "rnd \<in> set (elements (propOf conv ''round_results''))"
    with assms have "objectArray (propOf rnd ''node_results'')"
      "list_all (\<lambda>node.
            objectArray (propOf node ''responses'') \<and>
            list_all (\<lambda>r. textOrAbsent (propOf r ''message''))
              (elements (propOf node ''responses'')))
          (elements (propOf rnd ''node_results''))"
      by (simp_all add: nestedAsExpected_def list_all_iff)
    with objectArray_elements [OF oa r]
    show "roundResponses rnd =
         Inr (concat (map (\<lambda>node. map (entry node) (elements (propOf node ''responses'')))
                (elements (propOf rnd ''node_results''))))"
      by (rule roundResponses_ok)
  qed
qed

lemma getPublishData_null_iff:
  "getPublishData toNumber runId b = Inr None \<longleftrightarrow>
     (runs b runId = None \<or>
      (\<exists>run. runs b runId = Some run \<and>
         (status run \<noteq> Completed \<or> finalResult run = None \<or>
          (\<exists>final. finalResult run = Some final \<and>
             \<not> truthy (getField final ''conversation'')))))"
  by (auto simp: getPublishData_def Let_def split: option.splits sum.splits)

lemma getPublishData_ok:
  assumes "runs b runId = Some run" "status run = Completed" "finalResult run = Some final"
    and "truthy (getField final ''conversation'')"
    and "nestedAsExpected (getField final ''conversation'')"
  shows "\<exists>d. getPublishData toNumber runId b = Inr (Some d) \<and>
           responses d = flattened (getField final ''conversation'') \<and>
           agentCount d = agentsTotal run \<and>
           topologyType d =
             (if truthy (propOf (getField final ''conversation'') ''polyhedron_type'')
              then propOf (getField final ''conversation'') ''polyhedron_type''
              else if truthy (propOf (getField final ''conversation'') ''topology_type'')
              then propOf (getField final ''conversation'') ''topology_type''
              else if truthy (propOf (getField final ''conversation'') ''topology'')
              then propOf (getField final ''conversation'') ''topology''
              else JStr (inferTopology (numberOf toNumber (agentsTotal run))))"
  using assms(1-4) collect_rounds [OF assms(5)]
  by (simp add: getPublishData_def Let_def)

lemma inferTopology_number:
  "inferTopology (numberOf toNumber (JNum n)) =
     (if n \<le> 4 then ''small'' else if n \<le> 6 then ''medium'' else ''large'')"
  by (simp add: inferTopology_def numberOf_def lessEq_def)

text \<open>
  C8, as the code has it. \<open>getPublishData\<close> returns \<open>null\<close> exactly when the run is
  unknown, its status is not \<open>completed\<close>, no final result is cached, or the final
  event's \<open>conversation\<close> property is absent or falsy; so for a conversation that is
  present it never returns \<open>null\<close>, however the payload is nested. When the round
  results are nested as expected, it returns the data whose responses are the
  flattening of \<open>round_results\<close> in (round, node, response) order, each entry with
  the round of its node and its message stripped, and whose topology label, when the
  conversation has none of the three topology fields, is inferred from the agent count:
  at most 4 small, at most 6 medium, otherwise large. Stripping removes a \<open><think>\<close>
  block (up to the first \<open></think>\<close> behind it) and goes on with the rest; a message
  without a complete block is only trimmed.
\<close>

theorem C8_getPublishData:
  "(getPublishData toNumber runId b = Inr None \<longleftrightarrow>
      (runs b runId = None \<or>
       (\<exists>run. runs b runId = Some run \<and>
          (status run \<noteq> Completed \<or> finalResult run = None \<or>
           (\<exists>final. finalResult run = Some final \<and>
              \<not> truthy (getField final ''conversation'')))))) \<and>
   (\<forall>run final.
      runs b runId = Some run \<and> status run = Completed \<and> finalResult run = Some final \<and>
      truthy (getField final ''conversation'') \<and>
      nestedAsExpected (getField final ''conversation'') \<longrightarrow>
      (\<exists>d. getPublishData toNumber runId b = Inr (Some d) \<and>
         responses d = flattened (getField final ''conversation'') \<and>
         agentCount d = agentsTotal run \<and>
         (\<not> truthy (propOf (getField final ''conversation'') ''polyhedron_type'') \<and>
          \<not> truthy (propOf (getField final ''conversation'') ''topology_type'') \<and>
          \<not> truthy (propOf (getField final ''conversation'') ''topology'') \<longrightarrow>
          topologyType d = JStr (inferTopology (numberOf toNumber (agentsTotal run)))))) \<and>
   (\<forall>n. inferTopology (numberOf toNumber (JNum n)) =
      (if n \<le> 4 then ''small'' else if n \<le> 6 then ''medium'' else ''large'')) \<and>
   (\<forall>pre body post.
      \<not> occursIn openTag pre \<and> \<not> occursIn closeTag body \<longrightarrow>
      stripThinkTags (pre @ openTag @ body @ closeTag @ post) =
        trim (pre @ replaceThink post)) \<and>
   (\<forall>s. \<not> occursIn openTag s \<or> \<not> occursIn closeTag s \<longrightarrow> stripThinkTags s = trim s)"
proof (intro conjI allI impI)
  show "getPublishData toNumber runId b = Inr None \<longleftrightarrow>
      (runs b runId = None \<or>
       (\<exists>run. runs b runId = Some run \<and>
          (status run \<noteq> Completed \<or> finalResult run = None \<or>
           (\<exists>final. finalResult run = Some final \<and>
              \<not> truthy (getField final ''conversation'')))))"
    by (rule getPublishData_null_iff)
next
  fix run final
  assume a: "runs b runId = Some run \<and> status run = Completed \<and> finalResult run = Some final \<and>
      truthy (getField final ''conversation'') \<and>
      nestedAsExpected (getField final ''conversation'')"
  then obtain d where d: "getPublishData toNumber runId b = Inr (Some d)"
    "responses d = flattened (getField final ''conversation'')"
    "agentCount d = agentsTotal run"
    "topologyType d =
             (if truthy (propOf (getField final ''conversation'') ''polyhedron_type'')
              then propOf (getField final ''conversation'') ''polyhedron_type''
              else if truthy (propOf (getField final ''conversation'') ''topology_type'')
              then propOf (getField final ''conversation'') ''topology_type''
              else if truthy (propOf (getField final ''conversation'') ''topology'')
              then propOf (getField final ''conversation'') ''topology''
              else JStr (inferTopology (numberOf toNumber (agentsTotal run))))"
    using getPublishData_ok [of b runId run final toNumber] by blast
  then show "\<exists>d. getPublishData toNumber runId b = Inr (Some d) \<and>
         responses d = flattened (getField final ''conversation'') \<and>
         agentCount d = agentsTotal run \<and>
         (\<not> truthy (propOf (getField final ''conversation'') ''polyhedron_type'') \<and>
          \<not> truthy (propOf (getField final ''conversation'') ''topology_type'') \<and>
          \<not> truthy (propOf (getField final ''conversation'') ''topology'') \<longrightarrow>
          topologyType d = JStr (inferTopology (numberOf toNumber (agentsTotal run))))"
    by simp
next
  fix n show "inferTopology (numberOf toNumber (JNum n)) =
      (if n \<le> 4 then ''small'' else if n \<le> 6 then ''medium'' else ''large'')"
    by (rule inferTopology_number)
next
  fix pre body post
  assume "\<not> occursIn openTag pre \<and> \<not> occursIn closeTag body"
  then have "replaceThink (pre @ openTag @ body @ closeTag @ post) =
        pre @ replaceThink post"
    by (intro replaceThink_block) simp_all
  then show "stripThinkTags (pre @ openTag @ body @ closeTag @ post) =
        trim (pre @ replaceThink post)"
    by (simp only: stripThinkTags_def)
next
  fix s assume "\<not> occursIn openTag s \<or> \<not> occursIn closeTag s"
  then show "stripThinkTags s = trim s"
    using replaceThink_no_open [of s] replaceThink_no_close [of s]
    by (auto simp: stripThinkTags_def)
qed


theorem C8_getPublishData_witness:
  "map_sum id (map_option (\<lambda>d. (map rRound (responses d), map rMessage (responses d),
                                    topologyType d)))
     (getPublishData (\<lambda>v. None) ''R1'' (addEvent ''R1'' \<lparr>etype = ''final'', props = [(''conversation'', JObj [(''topic'', JStr ''T''),
       (''round_results'', JArr [
          JObj [(''node_results'', JArr [
            JObj [(''round'', JNum 1), (''responses'', JArr [
              JObj [(''agent_name'', JStr ''A''), (''agent_role'', JStr ''pro''),
                    (''message'', JStr ''<think>hm</think>yes'')],
              JObj [(''agent_name'', JStr ''B''), (''agent_role'', JStr ''con''),
                    (''message'', JString (0x3000 # units ''no'' @ [0xFEFF]))]])]])],
          JObj [(''node_results'', JArr [
            JObj [(''round'', JNum 2), (''responses'', JArr [
              JObj [(''agent_name'', JStr ''A''), (''agent_role'', JStr ''pro''),
                    (''message'', JStr '' still yes <think>x</think>'')],
              JObj [(''agent_name'', JStr ''B''), (''agent_role'', JStr ''con''),
                    (''message'', JStr ''<think>y</think>ok'')]])]])]])])]\<rparr>
       (addEvent ''R1'' \<lparr>etype = ''agents_created'', props = [(''count'', JNum 5)]\<rparr>
         (createRun ''R1'' newBuffer))))
   = Inr (Some ([JNum 1, JNum 1, JNum 2, JNum 2],
                [units ''yes'', units ''no'', units ''still yes'', units ''ok''],
                JStr ''medium'')) \<and>
   getPublishData (\<lambda>v. None) ''missing'' (addEvent ''R1'' \<lparr>etype = ''final'', props = [(''conversation'', JObj [(''topic'', JStr ''T''),
       (''round_results'', JArr [
          JObj [(''node_results'', JArr [
            JObj [(''round'', JNum 1), (''responses'', JArr [
              JObj [(''agent_name'', JStr ''A''), (''agent_role'', JStr ''pro''),
                    (''message'', JStr ''<think>hm</think>yes'')],
              JObj [(''agent_name'', JStr ''B''), (''agent_role'', JStr ''con''),
                    (''message'', JString (0x3000 # units ''no'' @ [0xFEFF]))]])]])],
          JObj [(''node_results'', JArr [
            JObj [(''round'', JNum 2), (''responses'', JArr [
              JObj [(''agent_name'', JStr ''A''), (''agent_role'', JStr ''pro''),
                    (''message'', JStr '' still yes <think>x</think>'')],
              JObj [(''agent_name'', JStr ''B''), (''agent_role'', JStr ''con''),
                    (''message'', JStr ''<think>y</think>ok'')]])]])]])])]\<rparr>
       (addEvent ''R1'' \<lparr>etype = ''agents_created'', props = [(''count'', JNum 5)]\<rparr>
         (createRun ''R1'' newBuffer))) = Inr None"
proof -
  let ?conv = "JObj [(''topic'', JStr ''T''),
       (''round_results'', JArr [
          JObj [(''node_results'', JArr [
            JObj [(''round'', JNum 1), (''responses'', JArr [
              JObj [(''agent_name'', JStr ''A''), (''agent_role'', JStr ''pro''),
                    (''message'', JStr ''<think>hm</think>yes'')],
              JObj [(''agent_name'', JStr ''B''), (''agent_role'', JStr ''con''),
                    (''message'', JString (0x3000 # units ''no'' @ [0xFEFF]))]])]])],
          JObj [(''node_results'', JArr [
            JObj [(''round'', JNum 2), (''responses'', JArr [
              JObj [(''agent_name'', JStr ''A''), (''agent_role'', JStr ''pro''),
                    (''message'', JStr '' still yes <think>x</think>'')],
              JObj [(''agent_name'', JStr ''B''), (''agent_role'', JStr ''con''),
                    (''message'', JStr ''<think>y</think>ok'')]])]])]])]"
  let ?final = "\<lparr>etype = ''final'', props = [(''conversation'', ?conv)]\<rparr>"
  let ?b = "(addEvent ''R1'' \<lparr>etype = ''final'', props = [(''conversation'', JObj [(''topic'', JStr ''T''),
       (''round_results'', JArr [
          JObj [(''node_results'', JArr [
            JObj [(''round'', JNum 1), (''responses'', JArr [
              JObj [(''agent_name'', JStr ''A''), (''agent_role'', JStr ''pro''),
                    (''message'', JStr ''<think>hm</think>yes'')],
              JObj [(''agent_name'', JStr ''B''), (''agent_role'', JStr ''con''),
                    (''message'', JString (0x3000 # units ''no'' @ [0xFEFF]))]])]])],
          JObj [(''node_results'', JArr [
            JObj [(''round'', JNum 2), (''responses'', JArr [
              JObj [(''agent_name'', JStr ''A''), (''agent_role'', JStr ''pro''),
                    (''message'', JStr '' still yes <think>x</think>'')],
              JObj [(''agent_name'', JStr ''B''), (''agent_role'', JStr ''con''),
                    (''message'', JStr ''<think>y</think>ok'')]])]])]])])]\<rparr>
       (addEvent ''R1'' \<lparr>etype = ''agents_created'', props = [(''count'', JNum 5)]\<rparr>
         (createRun ''R1'' newBuffer)))"
  let ?run = "\<lparr>events = [\<lparr>etype = ''agents_created'', props = [(''count'', JNum 5)]\<rparr>, ?final],
      lastPollIndex = 0, status = Completed, agentsTotal = JNum 5,
      agentsResponded = 0, estimatedCost = JNum 0, finalResult = Some ?final, topic = JStr ''T''\<rparr>"
  note facts = C8_getPublishData [of "\<lambda>v. None" _ ?b]
  have run: "runs ?b ''R1'' = Some ?run"
    by (simp add: runs_simps newBuffer_def freshRun_def addEvent_switch_def getField_def
        nullish_def propOf_def Let_def)
  have none: "runs ?b ''missing'' = None"
    by (simp add: runs_simps newBuffer_def)
  have conv: "getField ?final ''conversation'' = ?conv"
    by (simp add: getField_def)
  have shape: "nestedAsExpected ?conv"
    by (simp add: nestedAsExpected_def objectArray_def isObject_def textOrAbsent_def
        elements_def propOf_def)
  have flat: "map rRound (flattened ?conv) = [JNum 1, JNum 1, JNum 2, JNum 2] \<and>
      map rMessage (flattened ?conv) =
        [units ''yes'', units ''no'', units ''still yes'', units ''ok'']"
    by (simp add: flattened_def entry_def elements_def propOf_def stripThinkTags_def trim_def
        isSpace_def startsWith_def tag_units units_def)
  have topo: "\<not> truthy (propOf ?conv ''polyhedron_type'') \<and>
      \<not> truthy (propOf ?conv ''topology_type'') \<and> \<not> truthy (propOf ?conv ''topology'')"
    by (simp add: propOf_def)
  from facts [of "''R1''"] run conv shape topo
  obtain d where d: "getPublishData (\<lambda>v. None) ''R1'' ?b = Inr (Some d)"
    "responses d = flattened ?conv"
    "topologyType d = JStr (inferTopology (numberOf (\<lambda>v. None) (JNum 5)))"
    by auto
  from facts [of "''R1''"] have "inferTopology (numberOf (\<lambda>v. None) (JNum 5)) = ''medium''"
    by simp
  with d flat have 1: "map_sum id (map_option (\<lambda>d. (map rRound (responses d),
        map rMessage (responses d), topologyType d)))
     (getPublishData (\<lambda>v. None) ''R1'' ?b)
   = Inr (Some ([JNum 1, JNum 1, JNum 2, JNum 2],
                [units ''yes'', units ''no'', units ''still yes'', units ''ok''],
                JStr ''medium''))"
    by simp
  from facts [of "''missing''"] none
  have 2: "getPublishData (\<lambda>v. None) ''missing'' ?b = Inr None" by simp
  from 1 2 show ?thesis by simp
qed

text \<open>
  A conversation that is present but nested otherwise gives neither \<open>null\<close> nor the
  flattening. With \<open>round_results: 5\<close> the loop throws a \<open>TypeError\<close>. With a node whose
  \<open>responses\<close> is the string \<open>"xy"\<close> the loop runs over its two characters and returns
  two entries, although the payload holds no response object.
\<close>

theorem C8_other_nesting_counterexample:
  "getPublishData (\<lambda>v. None) ''R1'' (addEvent ''R1'' \<lparr>etype = ''final'', props = [(''conversation'', JObj [(''round_results'', JNum 5)])]\<rparr>
       (createRun ''R1'' newBuffer)) = Inl TypeError \<and>
   map_sum id (map_option (\<lambda>d. map rMessage (responses d)))
     (getPublishData (\<lambda>v. None) ''R1'' (addEvent ''R1'' \<lparr>etype = ''final'', props = [(''conversation'', JObj [(''round_results'', JArr [JObj [(''node_results'', JArr [JObj [(''responses'', JStr ''xy'')]])]])])]\<rparr>
       (createRun ''R1'' newBuffer))) = Inr (Some [[], []]) \<and>
   flattened (JObj [(''round_results'', JArr [JObj [(''node_results'', JArr [JObj [(''responses'', JStr ''xy'')]])]])]) = []"
  by (simp add: getPublishData_def runs_simps newBuffer_def freshRun_def addEvent_switch_def
      getField_def propOf_def orElse_def Let_def roundResponses_def nodeResponses_def
      responseOf_def stripThinkTags_def trim_def flattened_def elements_def units_def JStr_def)


end
